theory Spec2Isabelle
  imports Main "HOL-Library.Multiset"
begin

section \<open>Errors\<close>

text \<open>
  A Go \<^verbatim>\<open>error\<close> is either a plain message or a message wrapping a
  cause (\<^verbatim>\<open>fmt.Errorf("...: %w", err)\<close>).
\<close>

datatype error = Error string | Wrapf string error

section \<open>The glob matcher that selects archive entries\<close>

text \<open>
  The pass selects entries with
  \<^verbatim>\<open>filepath.Match("**/plugins/*/*.yaml", file.Name)\<close>.
  \<^verbatim>\<open>filepath.Match\<close> is the matcher of Go's standard library; on the
  platforms with separator \<^verbatim>\<open>/\<close> it runs the three routines below
  (\<^verbatim>\<open>scanChunk\<close>, \<^verbatim>\<open>matchChunk\<close> and the loop of
  \<^verbatim>\<open>Match\<close>). Strings are byte strings, as in Go.

  The operators \<^verbatim>\<open>?\<close> and \<^verbatim>\<open>[...]\<close> decode UTF-8 runes of the
  name. The pattern of this program contains neither, so the model does not
  decode runes: a chunk that reaches one of them is reported as
  \<open>ErrUnmodelled\<close> instead of being guessed at.
\<close>

definition Separator :: char where
  "Separator = CHR ''/''"

definition backslash :: char where
  "backslash = CHR 0x5C"

definition ErrBadPattern :: error where
  "ErrBadPattern = Error ''syntax error in pattern''"

definition ErrUnmodelled :: error where
  "ErrUnmodelled = Error ''rune operator outside the model''"

text \<open>The leading loop of \<^verbatim>\<open>scanChunk\<close>: drop stars, remember whether there was one.\<close>

fun skipStars :: "string \<Rightarrow> bool \<Rightarrow> bool \<times> string" where
  "skipStars [] star = (star, [])"
| "skipStars (c # pattern) star =
     (if c = CHR ''*'' then skipStars pattern True else (star, c # pattern))"

text \<open>
  The \<^verbatim>\<open>Scan\<close> loop of \<^verbatim>\<open>scanChunk\<close>: the chunk runs up to the next
  star that is not inside a bracket; a backslash takes the next byte with it.
\<close>

fun scanLoop :: "string \<Rightarrow> bool \<Rightarrow> string \<times> string" where
  "scanLoop [] inrange = ([], [])"
| "scanLoop (c # pattern) inrange =
     (if c = backslash then
        (case pattern of
           [] \<Rightarrow> ([c], [])
         | d # pattern' \<Rightarrow>
             (case scanLoop pattern' inrange of (chunk, rest) \<Rightarrow> (c # d # chunk, rest)))
      else if c = CHR ''['' then
        (case scanLoop pattern True of (chunk, rest) \<Rightarrow> (c # chunk, rest))
      else if c = CHR '']'' then
        (case scanLoop pattern False of (chunk, rest) \<Rightarrow> (c # chunk, rest))
      else if c = CHR ''*'' \<and> \<not> inrange then ([], c # pattern)
      else (case scanLoop pattern inrange of (chunk, rest) \<Rightarrow> (c # chunk, rest)))"

definition scanChunk :: "string \<Rightarrow> bool \<times> string \<times> string" where
  "scanChunk pattern =
     (case skipStars pattern False of
        (star, pattern') \<Rightarrow>
          (case scanLoop pattern' False of (chunk, rest) \<Rightarrow> (star, chunk, rest)))"

text \<open>
  \<^verbatim>\<open>matchChunk(chunk, s)\<close> returns \<^verbatim>\<open>(rest, ok, err)\<close>: the chunk
  matches a prefix of \<open>s\<close> and \<open>rest\<close> is what follows, or it does not match,
  or the chunk is malformed. After the match has failed the loop goes on over
  the chunk, to check its syntax, without reading \<open>s\<close> any more.
\<close>

datatype chunk_result = ChunkErr error | NoMatch | Rest string

fun matchChunk :: "string \<Rightarrow> string \<Rightarrow> bool \<Rightarrow> chunk_result" where
  "matchChunk [] s failed = (if failed then NoMatch else Rest s)"
| "matchChunk (c # chunk) s failed =
     (if c = CHR ''['' \<or> c = CHR ''?'' then ChunkErr ErrUnmodelled
      else if c = backslash then
        (case chunk of
           [] \<Rightarrow> ChunkErr ErrBadPattern
         | d # chunk' \<Rightarrow>
             (case s of
                [] \<Rightarrow> matchChunk chunk' s True
              | x # s' \<Rightarrow>
                  if failed then matchChunk chunk' s True
                  else matchChunk chunk' s' (d \<noteq> x)))
      else
        (case s of
           [] \<Rightarrow> matchChunk chunk s True
         | x # s' \<Rightarrow>
             if failed then matchChunk chunk s True
             else matchChunk chunk s' (c \<noteq> x)))"

text \<open>
  The inner loop of \<^verbatim>\<open>Match\<close> for a chunk that follows a star: try the chunk
  after skipping \<open>i + 1\<close> bytes of the name, never skipping a separator. When the
  chunk is the last one (\<open>lastChunk\<close>), a match that leaves bytes over is passed by.
\<close>

datatype star_result = StarErr error | StarNone | StarFound string

fun starLoop :: "string \<Rightarrow> bool \<Rightarrow> string \<Rightarrow> star_result" where
  "starLoop chunk lastChunk [] = StarNone"
| "starLoop chunk lastChunk (x # name) =
     (if x = Separator then StarNone
      else
        (case matchChunk chunk name False of
           Rest t \<Rightarrow>
             if lastChunk \<and> t \<noteq> [] then starLoop chunk lastChunk name
             else StarFound t
         | ChunkErr err \<Rightarrow> StarErr err
         | NoMatch \<Rightarrow> starLoop chunk lastChunk name))"

lemma skipStars_length: "length (snd (skipStars p b)) \<le> length p"
  by (induction p b rule: skipStars.induct) auto

lemma skipStars_shorter:
  "p \<noteq> [] \<Longrightarrow> hd p = CHR ''*'' \<Longrightarrow> length (snd (skipStars p b)) < length p"
  using skipStars_length [of "tl p" True] by (cases p) auto

lemma skipStars_no_star:
  "skipStars p b = (s, q) \<Longrightarrow> q \<noteq> [] \<Longrightarrow> hd q \<noteq> CHR ''*''"
  by (induction p b rule: skipStars.induct) (auto split: if_splits)

lemma scanLoop_length: "length (snd (scanLoop p b)) \<le> length p"
proof (induction p b rule: scanLoop.induct)
  case (1 inrange)
  show ?case by simp
next
  case (2 c pattern inrange)
  show ?case
  proof (cases "c = backslash")
    case True
    show ?thesis
    proof (cases pattern)
      case Nil
      with True show ?thesis by simp
    next
      case (Cons d pattern')
      obtain ch r where sl: "scanLoop pattern' inrange = (ch, r)" by force
      with "2.IH"(1) [OF True Cons] have "length r \<le> length pattern'" by simp
      with True Cons sl show ?thesis by simp
    qed
  next
    case nb: False
    show ?thesis
    proof (cases "c = CHR ''[''")
      case True
      obtain ch r where sl: "scanLoop pattern True = (ch, r)" by force
      with "2.IH"(2) [OF nb True] have "length r \<le> length pattern" by simp
      with True nb sl show ?thesis by simp
    next
      case no: False
      show ?thesis
      proof (cases "c = CHR '']''")
        case True
        obtain ch r where sl: "scanLoop pattern False = (ch, r)" by force
        with "2.IH"(3) [OF nb no True] have "length r \<le> length pattern" by simp
        with True nb no sl show ?thesis by simp
      next
        case nc: False
        show ?thesis
        proof (cases "c = CHR ''*'' \<and> \<not> inrange")
          case True
          with nb no nc show ?thesis by simp
        next
          case False
          obtain ch r where sl: "scanLoop pattern inrange = (ch, r)" by force
          with "2.IH"(4) [OF nb no nc False] have "length r \<le> length pattern" by simp
          with False nb no nc sl show ?thesis by simp
        qed
      qed
    qed
  qed
qed

lemma scanLoop_shorter:
  assumes "c \<noteq> CHR ''*''"
  shows "length (snd (scanLoop (c # q) b)) < Suc (length q)"
proof -
  have le: "length (snd (scanLoop q' b')) \<le> length q'" for q' b'
    by (rule scanLoop_length)
  show ?thesis
  proof (cases "c = backslash")
    case True
    show ?thesis
    proof (cases q)
      case Nil
      with True show ?thesis by simp
    next
      case (Cons d q')
      obtain ch r where sl: "scanLoop q' b = (ch, r)" by force
      with le [of q' b] have "length r \<le> length q'" by simp
      with True Cons sl show ?thesis by simp
    qed
  next
    case nb: False
    show ?thesis
    proof (cases "c = CHR ''[''")
      case True
      obtain ch r where sl: "scanLoop q True = (ch, r)" by force
      with le [of q True] have "length r \<le> length q" by simp
      with True nb sl show ?thesis by simp
    next
      case no: False
      show ?thesis
      proof (cases "c = CHR '']''")
        case True
        obtain ch r where sl: "scanLoop q False = (ch, r)" by force
        with le [of q False] have "length r \<le> length q" by simp
        with True nb no sl show ?thesis by simp
      next
        case False
        obtain ch r where sl: "scanLoop q b = (ch, r)" by force
        with le [of q b] have "length r \<le> length q" by simp
        with False nb no sl assms show ?thesis by simp
      qed
    qed
  qed
qed

lemma scanChunk_shorter:
  assumes "pattern \<noteq> []" and "scanChunk pattern = (star, chunk, rest)"
  shows "length rest < length pattern"
proof -
  obtain s q where sk: "skipStars pattern False = (s, q)" by force
  have rest: "rest = snd (scanLoop q False)"
    using assms(2) sk by (auto simp: scanChunk_def split: prod.splits)
  have ql: "length q \<le> length pattern"
    using skipStars_length [of pattern False] sk by simp
  show ?thesis
  proof (cases "q = []")
    case True
    then show ?thesis using rest assms(1) by simp
  next
    case False
    then obtain c q' where q: "q = c # q'" by (cases q) auto
    have "hd q \<noteq> CHR ''*''" using skipStars_no_star [OF sk False] .
    with q have "c \<noteq> CHR ''*''" by simp
    then have "length (snd (scanLoop (c # q') False)) < Suc (length q')"
      by (rule scanLoop_shorter)
    with ql rest q show ?thesis by simp
  qed
qed

text \<open>
  Before \<^verbatim>\<open>Match\<close> returns false without an error it checks that the rest of
  the pattern is well-formed.
\<close>

function checkRest :: "string \<Rightarrow> error option" where
  "checkRest pattern =
     (if pattern = [] then None
      else
        (case scanChunk pattern of
           (star, chunk, rest) \<Rightarrow>
             (case matchChunk chunk [] False of
                ChunkErr err \<Rightarrow> Some err
              | _ \<Rightarrow> checkRest rest)))"
  by pat_completeness auto
termination
  by (relation "measure length") (auto intro: scanChunk_shorter [OF _ sym])

function Match :: "string \<Rightarrow> string \<Rightarrow> error + bool" where
  "Match pattern name =
     (if pattern = [] then Inr (name = [])
      else
        (case scanChunk pattern of
           (star, chunk, rest) \<Rightarrow>
             if star \<and> chunk = [] then Inr (Separator \<notin> set name)
             else
               (case matchChunk chunk name False of
                  ChunkErr err \<Rightarrow> Inl err
                | NoMatch \<Rightarrow>
                    (case (if star then starLoop chunk (rest = []) name else StarNone) of
                       StarErr err \<Rightarrow> Inl err
                     | StarFound t \<Rightarrow> Match rest t
                     | StarNone \<Rightarrow>
                         (case checkRest rest of Some err \<Rightarrow> Inl err | None \<Rightarrow> Inr False))
                | Rest t \<Rightarrow>
                    if t = [] \<or> rest \<noteq> [] then Match rest t
                    else
                      (case (if star then starLoop chunk (rest = []) name else StarNone) of
                         StarErr err \<Rightarrow> Inl err
                       | StarFound t' \<Rightarrow> Match rest t'
                       | StarNone \<Rightarrow>
                           (case checkRest rest of Some err \<Rightarrow> Inl err | None \<Rightarrow> Inr False)))))"
  by pat_completeness auto
termination
  by (relation "measure (\<lambda>(pattern, name). length pattern)")
    (auto intro: scanChunk_shorter [OF _ sym])

declare checkRest.simps [simp del] Match.simps [simp del]

text \<open>A pattern of literal bytes and stars only, as the one of this program.\<close>

definition plain :: "string \<Rightarrow> bool" where
  "plain p \<longleftrightarrow> CHR ''['' \<notin> set p \<and> CHR ''?'' \<notin> set p \<and> backslash \<notin> set p"

section \<open>Data model\<close>

text \<open>
  \<^verbatim>\<open>types.Plugin\<close>, with the fields the pass fills in: the literal
  \<^verbatim>\<open>&types.Plugin{Description, UID, Type, Spec}\<close> and the later
  assignment to \<^verbatim>\<open>plugin.Logo\<close>. A field that is not set holds Go's zero
  value, the empty string.
\<close>

record plugin =
  Description :: string
  UID :: string
  Type :: string
  Spec :: string
  Logo :: string

text \<open>
  The parsed manifest \<^verbatim>\<open>v1yaml.Config\<close>: its \<^verbatim>\<open>Name\<close>,
  \<^verbatim>\<open>Type\<close> and \<^verbatim>\<open>Spec\<close> (fields \<open>cfg_Name\<close>, \<open>cfg_Type\<close>,
  \<open>cfg_Spec\<close> here, since \<open>Type\<close> and \<open>Spec\<close> are fields of the plugin too).
  The type switch of the pass tells a step plugin and a stage plugin, each with
  its description, from anything else.
\<close>

datatype config_spec = PluginStep string | PluginStage string | OtherSpec

record config =
  cfg_Name :: string
  cfg_Type :: string
  cfg_Spec :: config_spec

text \<open>
  An entry of the zip archive: its name and what opening and reading it gives
  (\<^verbatim>\<open>file.Open()\<close> may fail, \<^verbatim>\<open>io.Copy\<close> may fail, or the bytes
  arrive). \<^verbatim>\<open>rc.File\<close> is the list of entries in archive order;
  \<^verbatim>\<open>rc.Open(name)\<close> opens an entry by path.
\<close>

datatype file_data = OpenFails error | ReadFails error | Data string

record zfile =
  Name :: string
  contents :: file_data

record archive =
  File :: "zfile list"
  Open :: "string \<Rightarrow> file_data"

text \<open>
  The library functions the pass calls and this development does not look into:
  the manifest parser (\<^verbatim>\<open>parse.ParseBytes\<close>, \<^verbatim>\<open>parse.ParseString\<close>)
  and \<^verbatim>\<open>filepath.Dir\<close>, \<^verbatim>\<open>filepath.Join\<close>. Every result below holds
  for any choice of them.
\<close>

record lib =
  ParseBytes :: "string \<Rightarrow> error + config"
  ParseString :: "string \<Rightarrow> error + config"
  Dir :: "string \<Rightarrow> string"
  Join :: "string \<Rightarrow> string \<Rightarrow> string"

text \<open>
  The interface \<^verbatim>\<open>store.PluginStore\<close>, as far as the manager calls it, over
  a store state \<open>'s\<close>. \<open>Create\<close> and \<open>Update\<close> return the new state and the
  error, if any.
\<close>

record 's PluginStore =
  ListAll :: "'s \<Rightarrow> error + plugin list"
  Find :: "'s \<Rightarrow> string \<Rightarrow> string \<Rightarrow> error + plugin"
  Create :: "'s \<Rightarrow> plugin \<Rightarrow> 's \<times> error option"
  Update :: "'s \<Rightarrow> plugin \<Rightarrow> 's \<times> error option"

text \<open>The calls made on the store, in order, and the log lines written.\<close>

datatype store_call =
  CallListAll | CallFind string string | CallCreate plugin | CallUpdate plugin

datatype log_entry =
  Warn "error option" string string
| Info string string
| InfoMsgf string nat

record 's pass_state =
  db :: 's
  calls :: "store_call list"
  logs :: "log_entry list"
  cnt :: nat

text \<open>
  Modelled from the spec: \<^verbatim>\<open>Plugin.Matches\<close> of package \<^verbatim>\<open>types\<close> is
  not among the sources. The spec gives the content identity of a descriptor as
  (type, description, raw specification text, logo), compared byte for byte.
\<close>

definition Matches :: "plugin \<Rightarrow> plugin \<Rightarrow> bool" where
  "Matches p v \<longleftrightarrow>
     Type p = Type v \<and> Description p = Description v \<and> Spec p = Spec v \<and> Logo p = Logo v"

section \<open>The lookup function\<close>

text \<open>
  \<^verbatim>\<open>GetLookupFn\<close> returns a closure over the store; the model is the closure
  applied to its four arguments, returning the result and the store calls made.
\<close>

definition GetLookupFn ::
  "lib \<Rightarrow> 's PluginStore \<Rightarrow> 's \<Rightarrow> string \<Rightarrow> string \<Rightarrow> string \<Rightarrow> string
    \<Rightarrow> (error + config) \<times> store_call list" where
  "GetLookupFn L S s name kind typ version =
     (if kind \<noteq> ''plugin'' then (Inl (Error ''only plugin kind supported''), [])
      else if typ \<noteq> ''step'' then (Inl (Error ''only step plugins supported''), [])
      else
        (case Find S s name version of
           Inl err \<Rightarrow> (Inl (Wrapf ''could not lookup plugin'' err), [CallFind name version])
         | Inr plugin \<Rightarrow>
             (case ParseString L (Spec plugin) of
                Inl err \<Rightarrow>
                  (Inl (Wrapf ''could not unmarshal plugin to v1yaml spec'' err),
                   [CallFind name version])
              | Inr config \<Rightarrow> (Inr config, [CallFind name version]))))"

section \<open>The populate pass\<close>

definition pluginsPattern :: string where
  "pluginsPattern = ''**/plugins/*/*.yaml''"

text \<open>The index \<^verbatim>\<open>pluginMap\<close>: a later plugin with the same UID replaces an earlier one.\<close>

definition pluginMapOf :: "plugin list \<Rightarrow> (string \<rightharpoonup> plugin)" where
  "pluginMapOf plugins = foldl (\<lambda>m p. m(UID p \<mapsto> p)) Map.empty plugins"

definition warn :: "'s pass_state \<Rightarrow> error option \<Rightarrow> string \<Rightarrow> string \<Rightarrow> 's pass_state" where
  "warn st err name msg = st\<lparr>logs := logs st @ [Warn err name msg]\<rparr>"

text \<open>
  Lines 187 to 198: the logo beside the manifest. A logo that cannot be opened
  is no error; one that cannot be read is logged and left out.
\<close>

definition readLogo ::
  "lib \<Rightarrow> archive \<Rightarrow> zfile \<Rightarrow> plugin \<Rightarrow> 's pass_state \<Rightarrow> plugin \<times> 's pass_state" where
  "readLogo L rc file plugin st =
     (let dir = Dir L (Name file);
          logoFile = Join L dir ''logo.svg''
      in case Open rc logoFile of
           OpenFails err \<Rightarrow> (plugin, st)
         | ReadFails err \<Rightarrow> (plugin, warn st (Some err) (Name file) ''could not copy logo file'')
         | Data lbuf \<Rightarrow> (plugin\<lparr>Logo := lbuf\<rparr>, st))"

text \<open>
  Lines 200 to 226: skip a plugin the index holds unchanged; otherwise update
  when the index holds its UID and create when it does not. A store error is
  logged and the loop goes on; only a successful create counts.
\<close>

definition upsert ::
  "'s PluginStore \<Rightarrow> (string \<rightharpoonup> plugin) \<Rightarrow> zfile \<Rightarrow> plugin \<Rightarrow> 's pass_state \<Rightarrow> 's pass_state" where
  "upsert S pluginMap file plugin st =
     (if (case pluginMap (UID plugin) of Some p \<Rightarrow> Matches p plugin | None \<Rightarrow> False) then st
      else if pluginMap (UID plugin) \<noteq> None then
        (case Update S (db st) plugin of
           (db', err) \<Rightarrow>
             (let st' = st\<lparr>db := db', calls := calls st @ [CallUpdate plugin]\<rparr>
              in case err of
                   Some e \<Rightarrow> warn st' (Some e) (Name file) ''could not update plugin''
                 | None \<Rightarrow>
                     st'\<lparr>logs := logs st' @
                       [Info (Name file) ''detected changes: updated existing plugin entry'']\<rparr>))
      else
        (case Create S (db st) plugin of
           (db', err) \<Rightarrow>
             (let st' = st\<lparr>db := db', calls := calls st @ [CallCreate plugin]\<rparr>
              in case err of
                   Some e \<Rightarrow> warn st' (Some e) (Name file) ''could not create plugin in DB''
                 | None \<Rightarrow> st'\<lparr>cnt := cnt st' + 1\<rparr>)))"

text \<open>
  The body of the loop over \<^verbatim>\<open>rc.File\<close>. \<open>Inl\<close> is the one return out of
  the loop, a malformed pattern; every other branch ends the iteration and the
  loop goes on with the state on the right.
\<close>

definition processFile ::
  "lib \<Rightarrow> 's PluginStore \<Rightarrow> (string \<rightharpoonup> plugin) \<Rightarrow> archive \<Rightarrow> zfile \<Rightarrow> 's pass_state
    \<Rightarrow> error + 's pass_state" where
  "processFile L S pluginMap rc file st =
     (case Match pluginsPattern (Name file) of
        Inl err \<Rightarrow> Inl (Wrapf ''could not glob pattern'' err)
      | Inr matched \<Rightarrow>
          if \<not> matched then Inr st
          else
            (case contents file of
               OpenFails err \<Rightarrow> Inr (warn st (Some err) (Name file) ''could not open file'')
             | ReadFails err \<Rightarrow>
                 Inr (warn st (Some err) (Name file) ''could not read file contents'')
             | Data buf \<Rightarrow>
                 (case ParseBytes L buf of
                    Inl err \<Rightarrow>
                      Inr (warn st (Some err) (Name file)
                             ''could not parse schema into valid config'')
                  | Inr config \<Rightarrow>
                      (case (case cfg_Spec config of
                               PluginStep d \<Rightarrow> Some d
                             | PluginStage d \<Rightarrow> Some d
                             | OtherSpec \<Rightarrow> None) of
                         None \<Rightarrow>
                           Inr (warn st None (Name file)
                                  ''schema did not match a valid plugin schema'')
                       | Some desc \<Rightarrow>
                           (case readLogo L rc file
                                   \<lparr>Description = desc, UID = cfg_Name config,
                                    Type = cfg_Type config, Spec = buf, Logo = []\<rparr> st of
                              (plugin, st') \<Rightarrow> Inr (upsert S pluginMap file plugin st'))))))"

text \<open>The loop: the state reached, and the error if the loop returned early.\<close>

fun traverseFiles ::
  "lib \<Rightarrow> 's PluginStore \<Rightarrow> (string \<rightharpoonup> plugin) \<Rightarrow> archive \<Rightarrow> zfile list \<Rightarrow> 's pass_state
    \<Rightarrow> 's pass_state \<times> error option" where
  "traverseFiles L S pluginMap rc [] st = (st, None)"
| "traverseFiles L S pluginMap rc (file # files) st =
     (case processFile L S pluginMap rc file st of
        Inl err \<Rightarrow> (st, Some err)
      | Inr st' \<Rightarrow> traverseFiles L S pluginMap rc files st')"

text \<open>
  The state when the loop is entered: the store has been listed, nothing is
  logged and \<^verbatim>\<open>cnt := 0\<close>.
\<close>

definition initState :: "'s \<Rightarrow> 's pass_state" where
  "initState s = \<lparr>db = s, calls = [CallListAll], logs = [], cnt = 0\<rparr>"

definition traverseAndUpsertPlugins ::
  "lib \<Rightarrow> 's PluginStore \<Rightarrow> archive \<Rightarrow> 's \<Rightarrow> 's pass_state \<times> error option" where
  "traverseAndUpsertPlugins L S rc s =
     (let st0 = initState s
      in case ListAll S s of
           Inl err \<Rightarrow> (st0, Some (Wrapf ''could not list plugins'' err))
         | Inr plugins \<Rightarrow>
             (case traverseFiles L S (pluginMapOf plugins) rc (File rc) st0 of
                (st, Some err) \<Rightarrow> (st, Some err)
              | (st, None) \<Rightarrow>
                  (st\<lparr>logs := logs st @ [InfoMsgf ''added %d new entries to plugins'' (cnt st)]\<rparr>,
                   None)))"

text \<open>
  The descriptor the pass builds for an entry, when it builds one: the entry is
  selected by the pattern, its bytes arrive, they parse to a step or stage
  plugin, and the logo is added when it can be read. This is the plugin value
  that reaches lines 200 to 226; \<open>processFile_descriptor\<close> below proves it.
\<close>

definition descriptor :: "lib \<Rightarrow> archive \<Rightarrow> zfile \<Rightarrow> plugin option" where
  "descriptor L rc file =
     (if Match pluginsPattern (Name file) \<noteq> Inr True then None
      else
        (case contents file of
           Data buf \<Rightarrow>
             (case ParseBytes L buf of
                Inr config \<Rightarrow>
                  (case cfg_Spec config of
                     OtherSpec \<Rightarrow> None
                   | _ \<Rightarrow>
                       Some \<lparr>Description =
                               (case cfg_Spec config of
                                  PluginStep d \<Rightarrow> d | PluginStage d \<Rightarrow> d | OtherSpec \<Rightarrow> []),
                             UID = cfg_Name config, Type = cfg_Type config, Spec = buf,
                             Logo =
                               (case Open rc (Join L (Dir L (Name file)) ''logo.svg'') of
                                  Data lbuf \<Rightarrow> lbuf | _ \<Rightarrow> [])\<rparr>)
              | Inl err \<Rightarrow> None)
         | _ \<Rightarrow> None))"

definition descriptors :: "lib \<Rightarrow> archive \<Rightarrow> plugin list" where
  "descriptors L rc = List.map_filter (descriptor L rc) (File rc)"

text \<open>
  The store calls lines 200 to 226 make for a descriptor, given the index: none
  when the index holds it unchanged, one update when the index holds its UID,
  one create otherwise.
\<close>

definition callsFor :: "(string \<rightharpoonup> plugin) \<Rightarrow> plugin \<Rightarrow> store_call list" where
  "callsFor idx d =
     (case idx (UID d) of
        None \<Rightarrow> [CallCreate d]
      | Some p \<Rightarrow> if Matches p d then [] else [CallUpdate d])"

text \<open>Descriptors as an association list keyed by identifier.\<close>

definition keyed :: "plugin list \<Rightarrow> (string \<times> plugin) list" where
  "keyed ds = map (\<lambda>d. (UID d, d)) ds"

text \<open>
  Descriptors agree when any two of them with the same identifier are the same
  descriptor: an archive may hold a manifest more than once, but not two
  different manifests under one identifier.
\<close>

definition consistent :: "plugin list \<Rightarrow> bool" where
  "consistent ds \<longleftrightarrow> (\<forall>d\<in>set ds. \<forall>d'\<in>set ds. UID d = UID d' \<longrightarrow> d = d')"

text \<open>The log line lines 187 to 198 write for an entry, if any.\<close>

definition logoLog :: "lib \<Rightarrow> archive \<Rightarrow> zfile \<Rightarrow> log_entry list" where
  "logoLog L rc file =
     (case Open rc (Join L (Dir L (Name file)) ''logo.svg'') of
        ReadFails err \<Rightarrow> [Warn (Some err) (Name file) ''could not copy logo file'']
      | _ \<Rightarrow> [])"

text \<open>
  The rows of the store of the spec, as a multiset, after lines 200 to 226 ran
  for a descriptor: a create adds the descriptor unless its identifier is
  taken, an update replaces the rows of its identifier.
\<close>

definition replaceRow :: "plugin \<Rightarrow> plugin \<Rightarrow> plugin" where
  "replaceRow d q = (if UID q = UID d then d else q)"

definition addAbsent :: "plugin \<Rightarrow> plugin multiset \<Rightarrow> plugin multiset" where
  "addAbsent d M = (if UID d \<in> UID ` set_mset M then M else add_mset d M)"

definition rowsAfter :: "(string \<rightharpoonup> plugin) \<Rightarrow> plugin \<Rightarrow> plugin multiset \<Rightarrow> plugin multiset" where
  "rowsAfter idx d M =
     (case idx (UID d) of
        None \<Rightarrow> addAbsent d M
      | Some p \<Rightarrow> if Matches p d then M else image_mset (replaceRow d) M)"

section \<open>Fetching the archive\<close>

text \<open>
  The response of \<^verbatim>\<open>http.Get\<close>: its status code, and its body as the bytes
  the stream delivers and the error, if any, that ends it.
\<close>

record response =
  StatusCode :: nat
  Body :: "string \<times> error option"

text \<open>
  The surroundings of \<^verbatim>\<open>Populate\<close>: the configured
  \<^verbatim>\<open>CI.PluginsZipPath\<close>, \<^verbatim>\<open>http.Get\<close>, the error of
  \<^verbatim>\<open>os.Create\<close> for a path, the result of \<^verbatim>\<open>os.CreateTemp\<close> (the name
  of the new file), and the zip reader on the bytes of a file. The file system
  is a map from paths to contents; \<^verbatim>\<open>os.Stat\<close> fails when the path holds no
  file.
\<close>

record env =
  PluginsZipPath :: string
  Get :: "string \<Rightarrow> error + response"
  CreateErr :: "string \<Rightarrow> error option"
  CreateTemp :: "error + string"
  ReadZip :: "string \<Rightarrow> error + archive"

type_synonym filesystem = "string \<rightharpoonup> string"

text \<open>
  \<^verbatim>\<open>downloadZip\<close>: get the URL, create (or truncate) the file, copy the body.
  Nothing looks at the status code of the response.
\<close>

definition downloadZip ::
  "env \<Rightarrow> filesystem \<Rightarrow> string \<Rightarrow> string \<Rightarrow> filesystem \<times> error option" where
  "downloadZip E fs url path =
     (case Get E url of
        Inl err \<Rightarrow> (fs, Some (Wrapf ''could not get zip from url'' err))
      | Inr response \<Rightarrow>
          (case CreateErr E path of
             Some err \<Rightarrow> (fs, Some (Wrapf ''could not create output file'' err))
           | None \<Rightarrow>
               (case Body response of
                  (bytes, Some err) \<Rightarrow>
                    (fs(path \<mapsto> bytes),
                     Some (Wrapf ''could not copy response body output to file'' err))
                | (bytes, None) \<Rightarrow> (fs(path \<mapsto> bytes), None))))"

text \<open>
  Lines 88 to 101 of \<^verbatim>\<open>Populate\<close>: open the zip at the path and run the pass
  on it. The state of the pass is \<open>None\<close> when the pass was not reached.
\<close>

definition openAndUpsert ::
  "env \<Rightarrow> lib \<Rightarrow> 's PluginStore \<Rightarrow> filesystem \<Rightarrow> string \<Rightarrow> 's
    \<Rightarrow> 's pass_state option \<times> error option" where
  "openAndUpsert E L S fs path s =
     (case (case fs path of
              None \<Rightarrow> Inl (Error ''no such file or directory'')
            | Some bytes \<Rightarrow> ReadZip E bytes) of
        Inl err \<Rightarrow> (None, Some (Wrapf ''could not open zip for reading'' err))
      | Inr zipFile \<Rightarrow>
          (case traverseAndUpsertPlugins L S zipFile s of
             (st, Some err) \<Rightarrow> (Some st, Some (Wrapf ''could not upsert plugins'' err))
           | (st, None) \<Rightarrow> (Some st, None)))"

text \<open>
  \<^verbatim>\<open>Populate\<close>: a path that holds no local file is taken for a URL and
  downloaded to a temporary file, which the deferred \<^verbatim>\<open>os.Remove\<close> deletes
  when \<^verbatim>\<open>Populate\<close> returns.
\<close>

definition Populate ::
  "env \<Rightarrow> lib \<Rightarrow> 's PluginStore \<Rightarrow> filesystem \<Rightarrow> 's
    \<Rightarrow> filesystem \<times> 's pass_state option \<times> error option" where
  "Populate E L S fs s =
     (let path = PluginsZipPath E
      in if path = [] then
           (fs, None, Some (Error ''plugins path not provided to read schemas from''))
         else if fs path = None then
           (case CreateTemp E of
              Inl err \<Rightarrow> (fs, None, Some (Wrapf ''could not create temp file'' err))
            | Inr tmp \<Rightarrow>
                (case downloadZip E (fs(tmp \<mapsto> [])) path tmp of
                   (fs', Some err) \<Rightarrow>
                     (fs'(tmp := None), None, Some (Wrapf ''could not download remote zip'' err))
                 | (fs', None) \<Rightarrow>
                     (case openAndUpsert E L S fs' tmp s of
                        (st, err) \<Rightarrow> (fs'(tmp := None), st, err))))
         else
           (case openAndUpsert E L S fs path s of (st, err) \<Rightarrow> (fs, st, err)))"

section \<open>The store of the spec\<close>

text \<open>
  Modelled from the spec: the implementation of \<^verbatim>\<open>store.PluginStore\<close> is not
  among the sources. The spec describes the store as a catalog addressed by
  identifier: \<open>ListAll\<close> returns the descriptors, \<open>Find\<close> fails with NotFound
  when the identifier is absent, \<open>Create\<close> fails if the identifier already
  exists, \<open>Update\<close> fails if the identifier is absent. The state is the list of
  stored descriptors; a successful \<open>Create\<close> adds the descriptor and a successful
  \<open>Update\<close> replaces the descriptor of that identifier.
\<close>

definition specStore :: "plugin list PluginStore" where
  "specStore =
     \<lparr>ListAll = (\<lambda>rows. Inr rows),
      Find = (\<lambda>rows name version.
                case find (\<lambda>p. UID p = name) rows of
                  None \<Rightarrow> Inl (Error ''NotFound'')
                | Some p \<Rightarrow> Inr p),
      Create = (\<lambda>rows p.
                  if UID p \<in> set (map UID rows)
                  then (rows, Some (Error ''identifier already exists''))
                  else (rows @ [p], None)),
      Update = (\<lambda>rows p.
                  if UID p \<notin> set (map UID rows)
                  then (rows, Some (Error ''identifier absent''))
                  else (map (\<lambda>q. if UID q = UID p then p else q) rows, None))\<rparr>"

section \<open>Example inputs\<close>

text \<open>
  A toy manifest format for the examples: \<open>S<name> <text>\<close> is a step plugin,
  \<open>G<name> <text>\<close> a stage plugin, \<open>P<name> <text>\<close> a well-formed manifest
  of another kind, anything else does not parse. The description is the text
  after the name.
\<close>

definition exampleParse :: "string \<Rightarrow> error + config" where
  "exampleParse b =
     (case b of
        [] \<Rightarrow> Inl (Error ''empty manifest'')
      | c # r \<Rightarrow>
          (let name = takeWhile (\<lambda>x. x \<noteq> CHR '' '') r;
               text = dropWhile (\<lambda>x. x \<noteq> CHR '' '') r
           in if c = CHR ''S'' then
                Inr \<lparr>cfg_Name = name, cfg_Type = ''step'', cfg_Spec = PluginStep text\<rparr>
              else if c = CHR ''G'' then
                Inr \<lparr>cfg_Name = name, cfg_Type = ''stage'', cfg_Spec = PluginStage text\<rparr>
              else if c = CHR ''P'' then
                Inr \<lparr>cfg_Name = name, cfg_Type = ''pipeline'', cfg_Spec = OtherSpec\<rparr>
              else Inl (Error ''bad manifest'')))"

definition exampleLib :: lib where
  "exampleLib =
     \<lparr>ParseBytes = exampleParse, ParseString = exampleParse,
      Dir = (\<lambda>name. rev (tl (dropWhile (\<lambda>c. c \<noteq> CHR ''/'') (rev name)))),
      Join = (\<lambda>dir name. dir @ ''/'' @ name)\<rparr>"

text \<open>An archive without logos, given by its entries.\<close>

definition exampleArchive :: "zfile list \<Rightarrow> archive" where
  "exampleArchive files =
     \<lparr>File = files, Open = (\<lambda>name. OpenFails (Error ''file does not exist''))\<rparr>"

definition dockerFile1 :: zfile where
  "dockerFile1 = \<lparr>Name = ''r/plugins/docker/plugin.yaml'', contents = Data ''Sdocker v1''\<rparr>"

text \<open>The same manifest once more, in another directory.\<close>

definition dockerFile1b :: zfile where
  "dockerFile1b = \<lparr>Name = ''r/plugins/mirror/plugin.yaml'', contents = Data ''Sdocker v1''\<rparr>"

definition dockerFile2 :: zfile where
  "dockerFile2 = \<lparr>Name = ''r/plugins/docker2/plugin.yaml'', contents = Data ''Sdocker v2''\<rparr>"

definition slackFile :: zfile where
  "slackFile = \<lparr>Name = ''r/plugins/slack/plugin.yaml'', contents = Data ''Sslack v1''\<rparr>"

definition dockerV1 :: plugin where
  "dockerV1 = \<lparr>Description = '' v1'', UID = ''docker'', Type = ''step'',
               Spec = ''Sdocker v1'', Logo = []\<rparr>"

definition dockerV2 :: plugin where
  "dockerV2 = \<lparr>Description = '' v2'', UID = ''docker'', Type = ''step'',
               Spec = ''Sdocker v2'', Logo = []\<rparr>"

definition slackV1 :: plugin where
  "slackV1 = \<lparr>Description = '' v1'', UID = ''slack'', Type = ''step'',
              Spec = ''Sslack v1'', Logo = []\<rparr>"

text \<open>
  A server that answers every request with status 404 and a body that the zip
  reader accepts as an archive with one manifest.
\<close>

definition notFoundResponse :: response where
  "notFoundResponse = \<lparr>StatusCode = 404, Body = (''PK docker'', None)\<rparr>"

definition exampleEnv :: env where
  "exampleEnv =
     \<lparr>PluginsZipPath = ''https://example.com/plugins.zip'',
      Get = (\<lambda>url. Inr notFoundResponse),
      CreateErr = (\<lambda>path. None),
      CreateTemp = Inr ''/tmp/plugins.zip1'',
      ReadZip = (\<lambda>bytes. if bytes = ''PK docker'' then Inr (exampleArchive [dockerFile1])
                          else Inl (Error ''zip: not a valid zip file''))\<rparr>"

text \<open>The store of the spec when the database is down: no write succeeds.\<close>

definition downStore :: "plugin list PluginStore" where
  "downStore =
     specStore\<lparr>Create := (\<lambda>rows p. (rows, Some (Error ''database is down''))),
               Update := (\<lambda>rows p. (rows, Some (Error ''database is down'')))\<rparr>"

section \<open>The matcher returns no error on the pattern of the pass\<close>

lemma plain_Nil [simp]: "plain []"
  by (simp add: plain_def)

lemma plain_Cons:
  "plain (c # p) \<longleftrightarrow> c \<noteq> CHR ''['' \<and> c \<noteq> CHR ''?'' \<and> c \<noteq> backslash \<and> plain p"
  by (auto simp: plain_def)

lemma matchChunk_plain: "plain chunk \<Longrightarrow> matchChunk chunk s failed \<noteq> ChunkErr e"
proof (induction chunk arbitrary: s failed)
  case Nil
  show ?case by simp
next
  case (Cons c chunk)
  then have c: "c \<noteq> CHR ''[''" "c \<noteq> CHR ''?''" "c \<noteq> backslash" and p: "plain chunk"
    by (simp_all add: plain_Cons)
  show ?case
  proof (cases s)
    case Nil
    with c Cons.IH [OF p] show ?thesis by simp
  next
    case (Cons x s')
    with c Cons.IH [OF p] show ?thesis by simp
  qed
qed

lemma starLoop_plain: "plain chunk \<Longrightarrow> starLoop chunk l name \<noteq> StarErr e"
proof (induction name)
  case Nil
  show ?case by simp
next
  case (Cons x name)
  have "matchChunk chunk name False \<noteq> ChunkErr e'" for e'
    using Cons.prems by (rule matchChunk_plain)
  with Cons show ?case
    by (cases "matchChunk chunk name False") auto
qed

lemma skipStars_plain: "plain p \<Longrightarrow> plain (snd (skipStars p b))"
  by (induction p b rule: skipStars.induct) (simp_all add: plain_Cons)

lemma scanLoop_plain:
  "plain p \<Longrightarrow> plain (fst (scanLoop p b)) \<and> plain (snd (scanLoop p b))"
proof (induction p arbitrary: b)
  case Nil
  then show ?case by simp
next
  case (Cons c p)
  from Cons.prems have c: "c \<noteq> CHR ''[''" "c \<noteq> CHR ''?''" "c \<noteq> backslash" and p: "plain p"
    by (simp_all add: plain_Cons)
  have ih: "plain (fst (scanLoop p b')) \<and> plain (snd (scanLoop p b'))" for b'
    using Cons.IH [OF p] .
  show ?case
  proof (cases "c = CHR '']''")
    case True
    obtain ch r where sl: "scanLoop p False = (ch, r)" by force
    with ih [of False] have "plain ch" "plain r" by simp_all
    with True sl show ?thesis
      by (simp add: plain_Cons backslash_def)
  next
    case False
    show ?thesis
    proof (cases "c = CHR ''*'' \<and> \<not> b")
      case True
      with c False p show ?thesis by (simp add: plain_Cons backslash_def)
    next
      case nstar: False
      obtain ch r where sl: "scanLoop p b = (ch, r)" by force
      with ih [of b] have "plain ch" "plain r" by simp_all
      with c False nstar sl p show ?thesis
        by (simp add: plain_Cons backslash_def)
    qed
  qed
qed

lemma scanChunk_plain:
  assumes "plain p" and "scanChunk p = (star, chunk, rest)"
  shows "plain chunk \<and> plain rest"
proof -
  obtain s q where sk: "skipStars p False = (s, q)" by force
  with skipStars_plain [OF assms(1), of False] have q: "plain q" by simp
  obtain ch r where sl: "scanLoop q False = (ch, r)" by force
  with scanLoop_plain [OF q, of False] have "plain ch \<and> plain r" by simp
  moreover from assms(2) sk sl have "chunk = ch" "rest = r"
    by (simp_all add: scanChunk_def)
  ultimately show ?thesis by simp
qed

lemma checkRest_plain: "plain p \<Longrightarrow> checkRest p = None"
proof (induction p rule: checkRest.induct)
  case (1 pattern)
  show ?case
  proof (cases "pattern = []")
    case True
    then show ?thesis by (simp add: checkRest.simps)
  next
    case False
    obtain star chunk rest where sc: "scanChunk pattern = (star, chunk, rest)"
      by (cases "scanChunk pattern") auto
    from scanChunk_plain [OF "1.prems" sc] have pc: "plain chunk" and pr: "plain rest"
      by simp_all
    have ne: "matchChunk chunk [] False \<noteq> ChunkErr e" for e
      using pc by (rule matchChunk_plain)
    show ?thesis
    proof (cases "matchChunk chunk [] False")
      case (ChunkErr e)
      with ne [of e] show ?thesis by simp
    next
      case NoMatch
      from "1.IH"(1) [OF False sc [symmetric] refl NoMatch pr]
      show ?thesis using False sc NoMatch by (subst checkRest.simps) simp
    next
      case (Rest t)
      from "1.IH"(2) [OF False sc [symmetric] refl Rest pr]
      show ?thesis using False sc Rest by (subst checkRest.simps) simp
    qed
  qed
qed

lemma Match_plain: "plain p \<Longrightarrow> \<exists>b. Match p name = Inr b"
proof (induction p name rule: Match.induct)
  case (1 pattern name)
  show ?case
  proof (cases "pattern = []")
    case True
    then show ?thesis by (simp add: Match.simps)
  next
    case False
    obtain star chunk rest where sc: "scanChunk pattern = (star, chunk, rest)"
      by (cases "scanChunk pattern") auto
    from scanChunk_plain [OF "1.prems" sc] have pc: "plain chunk" and pr: "plain rest"
      by simp_all
    have cr: "checkRest rest = None" using pr by (rule checkRest_plain)
    define sl where "sl = (if star then starLoop chunk (rest = []) name else StarNone)"
    have sle: "sl \<noteq> StarErr e" for e
      using starLoop_plain [OF pc] by (simp add: sl_def)
    have unf: "Match pattern name =
        (if star \<and> chunk = [] then Inr (Separator \<notin> set name)
         else
           (case matchChunk chunk name False of
              ChunkErr err \<Rightarrow> Inl err
            | NoMatch \<Rightarrow>
                (case sl of
                   StarErr err \<Rightarrow> Inl err
                 | StarFound t \<Rightarrow> Match rest t
                 | StarNone \<Rightarrow>
                     (case checkRest rest of Some err \<Rightarrow> Inl err | None \<Rightarrow> Inr False))
            | Rest t \<Rightarrow>
                if t = [] \<or> rest \<noteq> [] then Match rest t
                else
                  (case sl of
                     StarErr err \<Rightarrow> Inl err
                   | StarFound t' \<Rightarrow> Match rest t'
                   | StarNone \<Rightarrow>
                       (case checkRest rest of Some err \<Rightarrow> Inl err | None \<Rightarrow> Inr False))))"
      unfolding sl_def by (subst Match.simps) (simp add: False sc)
    show ?thesis
    proof (cases "star \<and> chunk = []")
      case True
      then show ?thesis by (simp add: unf)
    next
      case ns: False
      have after: "\<exists>b. (case sl of StarErr err \<Rightarrow> Inl err | StarFound t \<Rightarrow> Match rest t
                 | StarNone \<Rightarrow> (case checkRest rest of Some err \<Rightarrow> Inl err | None \<Rightarrow> Inr False)) = Inr b"
        if ih: "\<And>t. sl = StarFound t \<Longrightarrow> \<exists>b. Match rest t = Inr b"
      proof (cases sl)
        case (StarErr e)
        with sle [of e] show ?thesis by simp
      next
        case StarNone
        with cr show ?thesis by auto
      next
        case (StarFound t)
        with ih [OF StarFound] show ?thesis by simp
      qed
      show ?thesis
      proof (cases "matchChunk chunk name False")
        case (ChunkErr e)
        with matchChunk_plain [OF pc, of name False e] show ?thesis by simp
      next
        case NoMatch
        have "\<exists>b. Match rest t = Inr b" if "sl = StarFound t" for t
          using "1.IH"(1) [OF False sc [symmetric] refl ns NoMatch that [unfolded sl_def] pr] .
        from after [OF this] show ?thesis
          by (simp add: unf ns NoMatch)
      next
        case (Rest t)
        show ?thesis
        proof (cases "t = [] \<or> rest \<noteq> []")
          case True
          from "1.IH"(2) [OF False sc [symmetric] refl ns Rest True pr]
          show ?thesis using True by (simp add: unf ns Rest)
        next
          case nt: False
          have "\<exists>b. Match rest t' = Inr b" if "sl = StarFound t'" for t'
            using "1.IH"(3) [OF False sc [symmetric] refl ns Rest nt that [unfolded sl_def] pr] .
          from after [OF this] show ?thesis
            using nt by (simp add: unf ns Rest)
        qed
      qed
    qed
  qed
qed

lemma plain_pluginsPattern: "plain pluginsPattern"
  by (simp add: plain_def pluginsPattern_def backslash_def)

lemma Match_pluginsPattern:
  "Match pluginsPattern name = Inr True \<or> Match pluginsPattern name = Inr False"
  using Match_plain [OF plain_pluginsPattern, of name] by auto

section \<open>The names the pattern selects\<close>

lemma matchChunk_Rest:
  "plain chunk \<Longrightarrow> matchChunk chunk s failed = Rest t \<Longrightarrow> \<not> failed \<and> s = chunk @ t"
proof (induction chunk arbitrary: s failed)
  case Nil
  then show ?case by (simp split: if_splits)
next
  case (Cons c chunk)
  from Cons.prems(1) have c: "c \<noteq> CHR ''[''" "c \<noteq> CHR ''?''" "c \<noteq> backslash" and p: "plain chunk"
    by (simp_all add: plain_Cons)
  show ?case
  proof (cases s)
    case Nil
    with Cons.prems(2) c have "matchChunk chunk [] True = Rest t" by simp
    from Cons.IH [OF p this] show ?thesis by simp
  next
    case (Cons x s')
    show ?thesis
    proof (cases failed)
      case True
      with Cons Cons.prems(2) c have "matchChunk chunk s True = Rest t" by simp
      from Cons.IH [OF p this] show ?thesis by simp
    next
      case False
      with Cons Cons.prems(2) c have "matchChunk chunk s' (c \<noteq> x) = Rest t" by simp
      from Cons.IH [OF p this] Cons False show ?thesis by simp
    qed
  qed
qed

lemma starLoop_Found:
  "plain chunk \<Longrightarrow> starLoop chunk l name = StarFound t \<Longrightarrow>
     \<exists>a. Separator \<notin> set a \<and> name = a @ chunk @ t \<and> (l \<longrightarrow> t = [])"
proof (induction name)
  case Nil
  then show ?case by simp
next
  case (Cons x name)
  from Cons.prems(2) have x: "x \<noteq> Separator" by (auto split: if_splits)
  show ?case
  proof (cases "matchChunk chunk name False")
    case (ChunkErr e)
    with Cons.prems(2) x show ?thesis by simp
  next
    case NoMatch
    with Cons.prems(2) x have "starLoop chunk l name = StarFound t" by simp
    from Cons.IH [OF Cons.prems(1) this] obtain a
      where "Separator \<notin> set a" "name = a @ chunk @ t" "l \<longrightarrow> t = []" by blast
    with x have "Separator \<notin> set (x # a) \<and> x # name = (x # a) @ chunk @ t \<and> (l \<longrightarrow> t = [])"
      by simp
    then show ?thesis by blast
  next
    case (Rest t')
    from matchChunk_Rest [OF Cons.prems(1) Rest] have n: "name = chunk @ t'" by simp
    show ?thesis
    proof (cases "l \<and> t' \<noteq> []")
      case True
      with Rest Cons.prems(2) x have "starLoop chunk l name = StarFound t" by simp
      from Cons.IH [OF Cons.prems(1) this] obtain a
        where "Separator \<notin> set a" "name = a @ chunk @ t" "l \<longrightarrow> t = []" by blast
      with x have "Separator \<notin> set (x # a) \<and> x # name = (x # a) @ chunk @ t \<and> (l \<longrightarrow> t = [])"
        by simp
      then show ?thesis by blast
    next
      case False
      with Rest Cons.prems(2) x have "t = t'" by auto
      with n x False have "Separator \<notin> set [x] \<and> x # name = [x] @ chunk @ t \<and> (l \<longrightarrow> t = [])"
        by auto
      then show ?thesis by blast
    qed
  qed
qed

lemma Match_star_chunk:
  assumes sc: "scanChunk pattern = (True, chunk, rest)"
    and ne: "chunk \<noteq> []" "pattern \<noteq> []"
    and pl: "plain chunk"
    and m: "Match pattern name = Inr True"
  shows "\<exists>a t. Separator \<notin> set a \<and> name = a @ chunk @ t \<and> Match rest t = Inr True"
proof -
  define sl where "sl = starLoop chunk (rest = []) name"
  have unf: "Match pattern name =
        (case matchChunk chunk name False of
              ChunkErr err \<Rightarrow> Inl err
            | NoMatch \<Rightarrow>
                (case sl of
                   StarErr err \<Rightarrow> Inl err
                 | StarFound t \<Rightarrow> Match rest t
                 | StarNone \<Rightarrow>
                     (case checkRest rest of Some err \<Rightarrow> Inl err | None \<Rightarrow> Inr False))
            | Rest t \<Rightarrow>
                if t = [] \<or> rest \<noteq> [] then Match rest t
                else
                  (case sl of
                     StarErr err \<Rightarrow> Inl err
                   | StarFound t' \<Rightarrow> Match rest t'
                   | StarNone \<Rightarrow>
                       (case checkRest rest of Some err \<Rightarrow> Inl err | None \<Rightarrow> Inr False)))"
    unfolding sl_def by (subst Match.simps) (simp add: sc ne)
  have star: ?thesis
    if "(case sl of StarErr err \<Rightarrow> Inl err | StarFound t \<Rightarrow> Match rest t
         | StarNone \<Rightarrow> (case checkRest rest of Some err \<Rightarrow> Inl err | None \<Rightarrow> Inr False))
        = Inr True"
  proof (cases sl)
    case (StarErr e)
    with that show ?thesis by simp
  next
    case StarNone
    with that show ?thesis by (simp split: option.splits)
  next
    case (StarFound t)
    with that have mt: "Match rest t = Inr True" by simp
    from starLoop_Found [OF pl StarFound [unfolded sl_def]] obtain a
      where "Separator \<notin> set a" "name = a @ chunk @ t" by blast
    with mt show ?thesis by blast
  qed
  show ?thesis
  proof (cases "matchChunk chunk name False")
    case (ChunkErr e)
    with m unf show ?thesis by simp
  next
    case NoMatch
    with m unf show ?thesis by (intro star) simp
  next
    case (Rest t)
    from matchChunk_Rest [OF pl Rest] have n: "name = chunk @ t" by simp
    show ?thesis
    proof (cases "t = [] \<or> rest \<noteq> []")
      case True
      with m unf Rest have "Match rest t = Inr True" by simp
      with n have "Separator \<notin> set [] \<and> name = [] @ chunk @ t \<and> Match rest t = Inr True" by simp
      then show ?thesis by blast
    next
      case False
      with m unf Rest show ?thesis by (intro star) simp
    qed
  qed
qed

lemma selected_names_shape:
  assumes "Match pluginsPattern name = Inr True"
  shows "\<exists>a b c. name = a @ ''/plugins/'' @ b @ ''/'' @ c @ ''.yaml''
           \<and> Separator \<notin> set a \<and> Separator \<notin> set b \<and> Separator \<notin> set c"
proof -
  have s1: "scanChunk pluginsPattern = (True, ''/plugins/'', ''*/*.yaml'')"
    by (simp add: pluginsPattern_def scanChunk_def backslash_def)
  have s2: "scanChunk ''*/*.yaml'' = (True, ''/'', ''*.yaml'')"
    by (simp add: scanChunk_def backslash_def)
  have s3: "scanChunk ''*.yaml'' = (True, ''.yaml'', [])"
    by (simp add: scanChunk_def backslash_def)
  from Match_star_chunk [OF s1 _ _ _ assms] obtain a t1
    where a: "Separator \<notin> set a" "name = a @ ''/plugins/'' @ t1"
      and m1: "Match ''*/*.yaml'' t1 = Inr True"
    by (auto simp: plain_def backslash_def pluginsPattern_def)
  from Match_star_chunk [OF s2 _ _ _ m1] obtain b t2
    where b: "Separator \<notin> set b" "t1 = b @ ''/'' @ t2"
      and m2: "Match ''*.yaml'' t2 = Inr True"
    by (auto simp: plain_def backslash_def)
  from Match_star_chunk [OF s3 _ _ _ m2] obtain c t3
    where c: "Separator \<notin> set c" "t2 = c @ ''.yaml'' @ t3"
      and m3: "Match [] t3 = Inr True"
    by (auto simp: plain_def backslash_def)
  from m3 have "t3 = []" by (simp add: Match.simps)
  with a b c show ?thesis by auto
qed

lemma matchChunk_prefix: "plain chunk \<Longrightarrow> matchChunk chunk (chunk @ t) False = Rest t"
proof (induction chunk)
  case Nil
  show ?case by simp
next
  case (Cons c chunk)
  then show ?case by (simp add: plain_Cons)
qed

lemma matchChunk_other_head:
  assumes "plain (c # chunk)" and "x \<noteq> c"
  shows "matchChunk (c # chunk) (x # s) False = NoMatch"
proof (cases "matchChunk (c # chunk) (x # s) False")
  case (ChunkErr e)
  with matchChunk_plain [OF assms(1), of "x # s" False e] show ?thesis by simp
next
  case NoMatch
  then show ?thesis .
next
  case (Rest t)
  from matchChunk_Rest [OF assms(1) Rest] assms(2) show ?thesis by simp
qed

lemma starLoop_at_separator:
  assumes pl: "plain (Separator # chunk)" and a: "a \<noteq> []" "Separator \<notin> set a"
  shows "starLoop (Separator # chunk) False (a @ Separator # chunk @ t) = StarFound t"
  using a
proof (induction a)
  case Nil
  then show ?case by simp
next
  case (Cons x a)
  from Cons.prems have x: "x \<noteq> Separator" and na: "Separator \<notin> set a" by auto
  show ?case
  proof (cases a)
    case Nil
    with x matchChunk_prefix [OF pl, of t] show ?thesis by simp
  next
    case (Cons y a')
    with na have "y \<noteq> Separator" by auto
    from matchChunk_other_head [OF pl this, of "a' @ Separator # chunk @ t"]
    have "matchChunk (Separator # chunk) (a @ Separator # chunk @ t) False = NoMatch"
      using Cons by simp
    moreover have "starLoop (Separator # chunk) False (a @ Separator # chunk @ t) = StarFound t"
      using Cons na by (intro Cons.IH) simp_all
    ultimately show ?thesis using x by simp
  qed
qed

lemma starLoop_last_chunk:
  assumes pl: "plain chunk" and c: "c \<noteq> []" "Separator \<notin> set c"
  shows "starLoop chunk True (c @ chunk) = StarFound []"
  using c
proof (induction c)
  case Nil
  then show ?case by simp
next
  case (Cons x c)
  from Cons.prems have x: "x \<noteq> Separator" and nc: "Separator \<notin> set c" by auto
  show ?case
  proof (cases "c = []")
    case True
    with x matchChunk_prefix [OF pl, of "[]"] show ?thesis by simp
  next
    case False
    have ih: "starLoop chunk True (c @ chunk) = StarFound []"
      using False nc by (rule Cons.IH)
    show ?thesis
    proof (cases "matchChunk chunk (c @ chunk) False")
      case (ChunkErr e)
      with matchChunk_plain [OF pl, of "c @ chunk" False e] show ?thesis by simp
    next
      case NoMatch
      with ih x show ?thesis by simp
    next
      case (Rest t)
      from matchChunk_Rest [OF pl Rest] have "c @ chunk = chunk @ t" by simp
      then have "length (c @ chunk) = length (chunk @ t)" by (rule arg_cong)
      then have "length c = length t" by simp
      with False have "t \<noteq> []" by auto
      with Rest ih x show ?thesis by simp
    qed
  qed
qed

lemma Match_star_separator_chunk:
  assumes sc: "scanChunk pattern = (True, Separator # chunk, rest)"
    and ne: "pattern \<noteq> []" "rest \<noteq> []"
    and pl: "plain (Separator # chunk)"
    and a: "Separator \<notin> set a"
  shows "Match pattern (a @ Separator # chunk @ t) = Match rest t"
proof (cases a)
  case Nil
  with matchChunk_prefix [OF pl, of t] show ?thesis
    by (subst Match.simps) (simp add: sc ne)
next
  case (Cons x a')
  with a have "x \<noteq> Separator" by auto
  from matchChunk_other_head [OF pl this, of "a' @ Separator # chunk @ t"]
  have "matchChunk (Separator # chunk) (a @ Separator # chunk @ t) False = NoMatch"
    using Cons by simp
  moreover have "starLoop (Separator # chunk) False (a @ Separator # chunk @ t) = StarFound t"
    using pl _ a by (rule starLoop_at_separator) (simp add: Cons)
  ultimately show ?thesis
    by (subst Match.simps) (simp add: sc ne)
qed

lemma Match_star_last_chunk:
  assumes sc: "scanChunk pattern = (True, chunk, [])"
    and ne: "pattern \<noteq> []" "chunk \<noteq> []"
    and pl: "plain chunk"
    and c: "Separator \<notin> set c"
  shows "Match pattern (c @ chunk) = Inr True"
proof (cases "c = []")
  case True
  with matchChunk_prefix [OF pl, of "[]"] show ?thesis
    by (subst Match.simps) (simp add: sc ne Match.simps [of "[]"])
next
  case False
  have sl: "starLoop chunk True (c @ chunk) = StarFound []"
    using pl False c by (rule starLoop_last_chunk)
  show ?thesis
  proof (cases "matchChunk chunk (c @ chunk) False")
    case (ChunkErr e)
    with matchChunk_plain [OF pl, of "c @ chunk" False e] show ?thesis by simp
  next
    case NoMatch
    with sl show ?thesis
      by (subst Match.simps) (simp add: sc ne Match.simps [of "[]"])
  next
    case (Rest t)
    from matchChunk_Rest [OF pl Rest] have "c @ chunk = chunk @ t" by simp
    then have "length (c @ chunk) = length (chunk @ t)" by (rule arg_cong)
    then have "length c = length t" by simp
    with False have "t \<noteq> []" by auto
    with Rest sl show ?thesis
      by (subst Match.simps) (simp add: sc ne Match.simps [of "[]"])
  qed
qed

lemma shaped_names_selected:
  assumes "Separator \<notin> set a" "Separator \<notin> set b" "Separator \<notin> set c"
  shows "Match pluginsPattern (a @ ''/plugins/'' @ b @ ''/'' @ c @ ''.yaml'') = Inr True"
proof -
  have s1: "scanChunk pluginsPattern = (True, Separator # ''plugins/'', ''*/*.yaml'')"
    by (simp add: pluginsPattern_def scanChunk_def backslash_def Separator_def)
  have s2: "scanChunk ''*/*.yaml'' = (True, Separator # [], ''*.yaml'')"
    by (simp add: scanChunk_def backslash_def Separator_def)
  have s3: "scanChunk ''*.yaml'' = (True, ''.yaml'', [])"
    by (simp add: scanChunk_def backslash_def)
  have p1: "plain (Separator # ''plugins/'')" and p2: "plain (Separator # [])" and p3: "plain ''.yaml''"
    by (simp_all add: plain_def backslash_def Separator_def)
  have n1: "pluginsPattern \<noteq> []" by (simp add: pluginsPattern_def)
  have e1: "Match pluginsPattern (a @ Separator # ''plugins/'' @ t) = Match ''*/*.yaml'' t" for t
    using s1 n1 _ p1 assms(1) by (rule Match_star_separator_chunk) simp
  have e2: "Match ''*/*.yaml'' (b @ Separator # [] @ t) = Match ''*.yaml'' t" for t
    using s2 _ _ p2 assms(2) by (rule Match_star_separator_chunk) simp_all
  have e3: "Match ''*.yaml'' (c @ ''.yaml'') = Inr True"
    using s3 _ _ p3 assms(3) by (rule Match_star_last_chunk) simp_all
  have n: "a @ ''/plugins/'' @ b @ ''/'' @ c @ ''.yaml''
      = a @ Separator # ''plugins/'' @ (b @ Separator # [] @ (c @ ''.yaml''))"
    by (simp add: Separator_def)
  show ?thesis by (simp only: n e1 e2 e3)
qed

lemma selected_iff:
  "Match pluginsPattern name =
     Inr (\<exists>a b c. name = a @ ''/plugins/'' @ b @ ''/'' @ c @ ''.yaml''
            \<and> Separator \<notin> set a \<and> Separator \<notin> set b \<and> Separator \<notin> set c)"
proof (cases "Match pluginsPattern name = Inr True")
  case True
  from selected_names_shape [OF True] True show ?thesis by simp
next
  case False
  have "\<not> (\<exists>a b c. name = a @ ''/plugins/'' @ b @ ''/'' @ c @ ''.yaml''
            \<and> Separator \<notin> set a \<and> Separator \<notin> set b \<and> Separator \<notin> set c)"
  proof
    assume "\<exists>a b c. name = a @ ''/plugins/'' @ b @ ''/'' @ c @ ''.yaml''
            \<and> Separator \<notin> set a \<and> Separator \<notin> set b \<and> Separator \<notin> set c"
    then obtain a b c where "name = a @ ''/plugins/'' @ b @ ''/'' @ c @ ''.yaml''"
      and "Separator \<notin> set a" "Separator \<notin> set b" "Separator \<notin> set c"
      by blast
    with shaped_names_selected [of a b c] False show False by simp
  qed
  moreover from False Match_pluginsPattern [of name] have "Match pluginsPattern name = Inr False"
    by blast
  ultimately show ?thesis by simp
qed

section \<open>One iteration of the loop\<close>

lemma processFile_descriptor:
  assumes "descriptor L rc file = Some d"
  shows "\<exists>st1. processFile L S idx rc file st = Inr (upsert S idx file d st1)
           \<and> db st1 = db st \<and> calls st1 = calls st \<and> cnt st1 = cnt st"
  using assms
  by (auto simp: descriptor_def processFile_def readLogo_def warn_def Let_def
      split: if_splits file_data.splits sum.splits config_spec.splits)

lemma processFile_no_descriptor:
  assumes "descriptor L rc file = None"
  shows "\<exists>st1. processFile L S idx rc file st = Inr st1
           \<and> db st1 = db st \<and> calls st1 = calls st \<and> cnt st1 = cnt st"
  using assms Match_pluginsPattern [of "Name file"]
  by (auto simp: descriptor_def processFile_def readLogo_def warn_def Let_def
      split: if_splits file_data.splits sum.splits config_spec.splits)

lemma upsert_skip:
  "idx (UID d) = Some p \<Longrightarrow> Matches p d \<Longrightarrow> upsert S idx f d st = st"
  by (simp add: upsert_def)

lemma upsert_update:
  assumes "idx (UID d) = Some p" and "\<not> Matches p d"
  shows "db (upsert S idx f d st) = fst (Update S (db st) d)"
    and "calls (upsert S idx f d st) = calls st @ [CallUpdate d]"
    and "cnt (upsert S idx f d st) = cnt st"
  using assms
  by (simp_all add: upsert_def warn_def Let_def split: prod.split option.split)

lemma upsert_create:
  assumes "idx (UID d) = None"
  shows "db (upsert S idx f d st) = fst (Create S (db st) d)"
    and "calls (upsert S idx f d st) = calls st @ [CallCreate d]"
    and "cnt (upsert S idx f d st) =
           (if snd (Create S (db st) d) = None then cnt st + 1 else cnt st)"
  using assms
  by (simp_all add: upsert_def warn_def Let_def split: prod.split option.split)

lemma upsert_calls: "calls (upsert S idx f d st) = calls st @ callsFor idx d"
proof (cases "idx (UID d)")
  case None
  from upsert_create(2) [where idx = idx and d = d and S = S and f = f and st = st, OF None] None
  show ?thesis by (simp add: callsFor_def)
next
  case (Some p)
  show ?thesis
  proof (cases "Matches p d")
    case True
    from upsert_skip [where idx = idx and d = d and S = S and f = f and st = st, OF Some True]
    show ?thesis using Some True by (simp add: callsFor_def)
  next
    case False
    from upsert_update(2) [where idx = idx and d = d and S = S and f = f and st = st, OF Some False]
    show ?thesis using Some False by (simp add: callsFor_def)
  qed
qed

lemma traverseFiles_trace:
  "\<exists>st'. traverseFiles L S idx rc files st = (st', None)
     \<and> calls st' = calls st @ concat (map (callsFor idx) (List.map_filter (descriptor L rc) files))"
proof (induction files arbitrary: st)
  case Nil
  show ?case by (simp add: map_filter_simps)
next
  case (Cons f files)
  show ?case
  proof (cases "descriptor L rc f")
    case None
    from processFile_no_descriptor [OF None, of S idx st]
    obtain st1 where pf: "processFile L S idx rc f st = Inr st1" and c: "calls st1 = calls st"
      by blast
    from Cons.IH [of st1] pf c None show ?thesis
      by (simp add: map_filter_simps)
  next
    case (Some d)
    from processFile_descriptor [OF Some, of S idx st]
    obtain st1 where pf: "processFile L S idx rc f st = Inr (upsert S idx f d st1)"
      and c: "calls st1 = calls st"
      by blast
    from Cons.IH [of "upsert S idx f d st1"] pf c Some show ?thesis
      by (simp add: map_filter_simps upsert_calls)
  qed
qed

lemma traverseFiles_all_skip:
  assumes "\<And>d. d \<in> set (List.map_filter (descriptor L rc) files) \<Longrightarrow> idx (UID d) = Some d"
  shows "\<exists>st'. traverseFiles L S idx rc files st = (st', None)
           \<and> db st' = db st \<and> calls st' = calls st \<and> cnt st' = cnt st"
  using assms
proof (induction files arbitrary: st)
  case Nil
  show ?case by simp
next
  case (Cons f files)
  show ?case
  proof (cases "descriptor L rc f")
    case None
    from processFile_no_descriptor [OF None, of S idx st]
    obtain st1 where pf: "processFile L S idx rc f st = Inr st1"
      and c: "db st1 = db st" "calls st1 = calls st" "cnt st1 = cnt st"
      by blast
    have "\<exists>st'. traverseFiles L S idx rc files st1 = (st', None)
           \<and> db st' = db st1 \<and> calls st' = calls st1 \<and> cnt st' = cnt st1"
      using Cons.prems None by (intro Cons.IH) simp
    with pf c show ?thesis by simp
  next
    case (Some d)
    from processFile_descriptor [OF Some, of S idx st]
    obtain st1 where pf: "processFile L S idx rc f st = Inr (upsert S idx f d st1)"
      and c: "db st1 = db st" "calls st1 = calls st" "cnt st1 = cnt st"
      by blast
    have "idx (UID d) = Some d" using Cons.prems [of d] Some by simp
    moreover have "Matches d d" by (simp add: Matches_def)
    ultimately have skip: "upsert S idx f d st1 = st1"
      by (rule upsert_skip)
    have "\<exists>st'. traverseFiles L S idx rc files st1 = (st', None)
           \<and> db st' = db st1 \<and> calls st' = calls st1 \<and> cnt st' = cnt st1"
      using Cons.prems Some by (intro Cons.IH) simp
    with pf c skip show ?thesis by simp
  qed
qed

lemma callsFor_cases: "c \<in> set (callsFor idx d) \<Longrightarrow> c = CallCreate d \<or> c = CallUpdate d"
  by (auto simp: callsFor_def split: option.splits if_splits)

section \<open>The pass on the store of the spec\<close>

lemma specStore_fields:
  "ListAll specStore rows = Inr rows"
  "Create specStore rows p =
     (if UID p \<in> set (map UID rows) then (rows, Some (Error ''identifier already exists''))
      else (rows @ [p], None))"
  "Update specStore rows p =
     (if UID p \<notin> set (map UID rows) then (rows, Some (Error ''identifier absent''))
      else (map (\<lambda>q. if UID q = UID p then p else q) rows, None))"
  by (simp_all add: specStore_def)

lemma downStore_fields:
  "ListAll downStore rows = Inr rows"
  "Create downStore rows p = (rows, Some (Error ''database is down''))"
  "Update downStore rows p = (rows, Some (Error ''database is down''))"
  by (simp_all add: downStore_def specStore_def)

lemma pluginMapOf_snoc: "pluginMapOf (rows @ [p]) = (pluginMapOf rows)(UID p \<mapsto> p)"
  by (simp add: pluginMapOf_def)

lemma pluginMapOf_Nil: "pluginMapOf [] = Map.empty"
  by (simp add: pluginMapOf_def)

lemma pluginMapOf_None: "pluginMapOf rows k = None \<longleftrightarrow> k \<notin> set (map UID rows)"
  by (induction rows rule: rev_induct) (auto simp: pluginMapOf_snoc pluginMapOf_Nil)

lemma pluginMapOf_Some: "pluginMapOf rows k = Some p \<Longrightarrow> UID p = k \<and> p \<in> set rows"
  by (induction rows rule: rev_induct)
    (auto simp: pluginMapOf_snoc pluginMapOf_Nil split: if_splits)

lemma pluginMapOf_replace:
  "UID p \<in> set (map UID rows) \<Longrightarrow>
     pluginMapOf (map (\<lambda>q. if UID q = UID p then p else q) rows) = (pluginMapOf rows)(UID p \<mapsto> p)"
proof (induction rows rule: rev_induct)
  case Nil
  then show ?case by simp
next
  case (snoc x xs)
  show ?case
  proof (cases "UID p \<in> set (map UID xs)")
    case True
    from snoc.IH [OF True] show ?thesis
      by (auto simp: pluginMapOf_snoc)
  next
    case False
    then have same: "map (\<lambda>q. if UID q = UID p then p else q) xs = xs"
      by (induction xs) auto
    from False snoc.prems have "UID x = UID p" by auto
    with same show ?thesis by (simp add: pluginMapOf_snoc fun_eq_iff)
  qed
qed

lemma Matches_same_UID: "Matches p d \<Longrightarrow> UID p = UID d \<Longrightarrow> p = d"
  by (simp add: Matches_def)

lemma descriptor_Open:
  assumes "Open rc' = Open rc"
  shows "descriptor L rc' f = descriptor L rc f"
  unfolding descriptor_def assms by (rule refl)

lemma descriptors_permuted:
  assumes "mset (File rc') = mset (File rc)" and "Open rc' = Open rc"
  shows "mset (descriptors L rc') = mset (descriptors L rc)"
proof -
  have "descriptor L rc' = descriptor L rc"
    using descriptor_Open [OF assms(2)] by (simp add: fun_eq_iff)
  then show ?thesis
    using assms(1) by (simp add: descriptors_def List.map_filter_def)
qed

lemma upsert_specStore_frame:
  assumes "k \<noteq> UID d"
  shows "filter (\<lambda>q. UID q = k) (db (upsert specStore idx f d st)) = filter (\<lambda>q. UID q = k) (db st)"
proof (cases "idx (UID d)")
  case None
  from upsert_create(1) [where idx = idx and d = d and S = specStore and f = f and st = st, OF None]
  show ?thesis using assms by (simp add: specStore_fields)
next
  case (Some p)
  show ?thesis
  proof (cases "Matches p d")
    case True
    from upsert_skip [where idx = idx and d = d and S = specStore and f = f and st = st, OF Some True]
    show ?thesis by simp
  next
    case False
    have "filter (\<lambda>q. UID q = k) (map (\<lambda>q. if UID q = UID d then d else q) rows)
        = filter (\<lambda>q. UID q = k) rows" for rows
      using assms by (induction rows) auto
    with upsert_update(1) [where idx = idx and d = d and S = specStore and f = f and st = st, OF Some False]
    show ?thesis by (simp add: specStore_fields)
  qed
qed

lemma traverseFiles_specStore_frame:
  assumes "k \<notin> set (map UID (List.map_filter (descriptor L rc) files))"
    and "traverseFiles L specStore idx rc files st = (st', e)"
  shows "filter (\<lambda>q. UID q = k) (db st') = filter (\<lambda>q. UID q = k) (db st)"
  using assms
proof (induction files arbitrary: st)
  case Nil
  then show ?case by simp
next
  case (Cons f files)
  show ?case
  proof (cases "descriptor L rc f")
    case None
    from processFile_no_descriptor [OF None, of specStore idx st]
    obtain st1 where pf: "processFile L specStore idx rc f st = Inr st1" and c: "db st1 = db st"
      by blast
    have "filter (\<lambda>q. UID q = k) (db st') = filter (\<lambda>q. UID q = k) (db st1)"
      using Cons.prems pf None by (intro Cons.IH) simp_all
    with c show ?thesis by simp
  next
    case (Some d)
    from processFile_descriptor [OF Some, of specStore idx st]
    obtain st1 where pf: "processFile L specStore idx rc f st = Inr (upsert specStore idx f d st1)"
      and c: "db st1 = db st"
      by blast
    from Cons.prems(1) Some have k: "k \<noteq> UID d" by auto
    have "filter (\<lambda>q. UID q = k) (db st')
        = filter (\<lambda>q. UID q = k) (db (upsert specStore idx f d st1))"
      using Cons.prems pf Some by (intro Cons.IH) simp_all
    with upsert_specStore_frame [OF k, of idx f st1] c show ?thesis by simp
  qed
qed

lemma consistentD: "consistent ds \<Longrightarrow> d \<in> set ds \<Longrightarrow> d' \<in> set ds \<Longrightarrow> UID d = UID d' \<Longrightarrow> d = d'"
  by (simp add: consistent_def)

lemma consistent_Cons: "consistent (d # ds) \<Longrightarrow> consistent ds"
  by (simp add: consistent_def)

lemma upsert_specStore_settled:
  assumes "pluginMapOf (db st) (UID d) = idx (UID d) \<or> pluginMapOf (db st) (UID d) = Some d"
  shows "pluginMapOf (db (upsert specStore idx f d st)) = (pluginMapOf (db st))(UID d \<mapsto> d)"
    and "cnt (upsert specStore idx f d st)
           = (if pluginMapOf (db st) (UID d) = None then cnt st + 1 else cnt st)"
proof -
  let ?m = "pluginMapOf (db st)"
  have both: "pluginMapOf (db (upsert specStore idx f d st)) = ?m(UID d \<mapsto> d)
      \<and> cnt (upsert specStore idx f d st) = (if ?m (UID d) = None then cnt st + 1 else cnt st)"
  proof (cases "idx (UID d)")
    case None
    note cr = upsert_create [where idx = idx and d = d and S = specStore and f = f and st = st, OF None]
    show ?thesis
    proof (cases "?m (UID d)")
      case absent: None
      then have "UID d \<notin> set (map UID (db st))"
        using pluginMapOf_None [of "db st" "UID d"] by simp
      with cr absent show ?thesis by (simp add: specStore_fields pluginMapOf_snoc)
    next
      case (Some q)
      with assms None have q: "?m (UID d) = Some d" by simp
      then have "UID d \<in> set (map UID (db st))"
        using pluginMapOf_None [of "db st" "UID d"] by simp
      moreover from q have "?m(UID d \<mapsto> d) = ?m" by (auto simp: fun_upd_idem_iff)
      ultimately show ?thesis using cr q by (simp add: specStore_fields)
    qed
  next
    case (Some p)
    have present: "?m (UID d) \<noteq> None" using assms Some by auto
    then have in_db: "UID d \<in> set (map UID (db st))"
      using pluginMapOf_None [of "db st" "UID d"] by simp
    show ?thesis
    proof (cases "Matches p d")
      case True
      have "?m (UID d) = Some d"
      proof (cases "?m (UID d) = Some d")
        case True
        then show ?thesis .
      next
        case False
        with assms Some have mp: "?m (UID d) = Some p" by simp
        from pluginMapOf_Some [OF mp] have "UID p = UID d" by simp
        with True have "p = d" by (rule Matches_same_UID)
        with mp show ?thesis by simp
      qed
      then have "?m(UID d \<mapsto> d) = ?m" by (auto simp: fun_upd_idem_iff)
      with upsert_skip [where idx = idx and d = d and S = specStore and f = f and st = st, OF Some True]
        present
      show ?thesis by simp
    next
      case False
      note up = upsert_update [where idx = idx and d = d and S = specStore and f = f and st = st, OF Some False]
      from up in_db present show ?thesis
        by (simp add: specStore_fields pluginMapOf_replace)
    qed
  qed
  from both show "pluginMapOf (db (upsert specStore idx f d st)) = ?m(UID d \<mapsto> d)" by simp
  from both show "cnt (upsert specStore idx f d st)
           = (if ?m (UID d) = None then cnt st + 1 else cnt st)" by simp
qed

lemma keyed_SomeD: "map_of (keyed ds) k = Some d \<Longrightarrow> d \<in> set ds \<and> UID d = k"
  by (auto simp: keyed_def dest!: map_of_SomeD)

lemma keyed_dom: "dom (map_of (keyed ds)) = UID ` set ds"
  by (simp add: keyed_def dom_map_of_conv_image_fst image_image)

lemma keyed_consistent:
  assumes "consistent ds" and "d \<in> set ds"
  shows "map_of (keyed ds) (UID d) = Some d"
proof -
  from assms(2) have "UID d \<in> dom (map_of (keyed ds))" by (simp add: keyed_dom)
  then obtain d' where s: "map_of (keyed ds) (UID d) = Some d'" by auto
  from keyed_SomeD [OF s] have "d' \<in> set ds" "UID d' = UID d" by simp_all
  with assms have "d' = d" by (auto dest: consistentD)
  with s show ?thesis by simp
qed

lemma traverseFiles_specStore_consistent:
  assumes "consistent (List.map_filter (descriptor L rc) files)"
    and "\<And>d. d \<in> set (List.map_filter (descriptor L rc) files)
            \<Longrightarrow> pluginMapOf (db st) (UID d) = idx (UID d)
                \<or> pluginMapOf (db st) (UID d) = Some d"
  shows "\<exists>st'. traverseFiles L specStore idx rc files st = (st', None)
           \<and> pluginMapOf (db st')
               = pluginMapOf (db st) ++ map_of (keyed (List.map_filter (descriptor L rc) files))
           \<and> cnt st' = cnt st
               + card (UID ` set (List.map_filter (descriptor L rc) files)
                        - dom (pluginMapOf (db st)))"
  using assms
proof (induction files arbitrary: st)
  case Nil
  show ?case by (simp add: keyed_def)
next
  case (Cons f files)
  show ?case
  proof (cases "descriptor L rc f")
    case None
    from processFile_no_descriptor [OF None, of specStore idx st]
    obtain st1 where pf: "processFile L specStore idx rc f st = Inr st1"
      and c: "db st1 = db st" "cnt st1 = cnt st"
      by blast
    have "\<exists>st'. traverseFiles L specStore idx rc files st1 = (st', None)
           \<and> pluginMapOf (db st')
               = pluginMapOf (db st1) ++ map_of (keyed (List.map_filter (descriptor L rc) files))
           \<and> cnt st' = cnt st1
               + card (UID ` set (List.map_filter (descriptor L rc) files)
                        - dom (pluginMapOf (db st1)))"
      using Cons.prems None c by (intro Cons.IH) simp_all
    with pf c None show ?thesis by simp
  next
    case (Some d)
    let ?ds = "List.map_filter (descriptor L rc) files"
    let ?m = "pluginMapOf (db st)"
    from Cons.prems(1) Some have cons: "consistent (d # ?ds)" by simp
    then have cons': "consistent ?ds" by (rule consistent_Cons)
    from processFile_descriptor [OF Some, of specStore idx st]
    obtain st1 where pf: "processFile L specStore idx rc f st = Inr (upsert specStore idx f d st1)"
      and c: "db st1 = db st" "cnt st1 = cnt st"
      by blast
    let ?st2 = "upsert specStore idx f d st1"
    have agree: "pluginMapOf (db st1) (UID d) = idx (UID d) \<or> pluginMapOf (db st1) (UID d) = Some d"
      using Cons.prems(2) [of d] Some c by simp
    note up = upsert_specStore_settled [where idx = idx and d = d and st = st1 and f = f, OF agree]
    have "\<exists>st'. traverseFiles L specStore idx rc files ?st2 = (st', None)
           \<and> pluginMapOf (db st') = pluginMapOf (db ?st2) ++ map_of (keyed ?ds)
           \<and> cnt st' = cnt ?st2 + card (UID ` set ?ds - dom (pluginMapOf (db ?st2)))"
    proof (intro Cons.IH cons')
      fix d' assume d': "d' \<in> set ?ds"
      show "pluginMapOf (db ?st2) (UID d') = idx (UID d')
          \<or> pluginMapOf (db ?st2) (UID d') = Some d'"
      proof (cases "UID d' = UID d")
        case True
        with cons d' have "d' = d" by (auto dest: consistentD)
        then show ?thesis by (simp add: up(1))
      next
        case False
        moreover from Cons.prems(2) [of d'] d' Some c
        have "pluginMapOf (db st1) (UID d') = idx (UID d')
            \<or> pluginMapOf (db st1) (UID d') = Some d'" by simp
        ultimately show ?thesis by (simp add: up(1))
      qed
    qed
    then obtain st' where tr: "traverseFiles L specStore idx rc files ?st2 = (st', None)"
      and m: "pluginMapOf (db st') = pluginMapOf (db ?st2) ++ map_of (keyed ?ds)"
      and n: "cnt st' = cnt ?st2 + card (UID ` set ?ds - dom (pluginMapOf (db ?st2)))"
      by blast
    have "pluginMapOf (db st') = ?m ++ map_of (keyed (d # ?ds))"
    proof (rule ext)
      fix k
      show "pluginMapOf (db st') k = (?m ++ map_of (keyed (d # ?ds))) k"
      proof (cases "map_of (keyed ?ds) k")
        case None
        then show ?thesis using m up(1) c by (simp add: keyed_def map_add_def)
      next
        case (Some d')
        from keyed_SomeD [OF Some] have "d' \<in> set ?ds" "UID d' = k" by simp_all
        with cons have "k = UID d \<Longrightarrow> d' = d" by (auto dest: consistentD)
        with Some show ?thesis using m by (auto simp: keyed_def map_add_def)
      qed
    qed
    moreover have "cnt st' = cnt st + card (UID ` set (d # ?ds) - dom ?m)"
    proof (cases "?m (UID d)")
      case None
      then have nd: "UID d \<notin> dom ?m" by auto
      have fin: "finite (UID ` set ?ds - insert (UID d) (dom ?m))" by simp
      have "UID ` set (d # ?ds) - dom ?m
          = insert (UID d) (UID ` set ?ds - insert (UID d) (dom ?m))"
        using nd by auto
      then have "card (UID ` set (d # ?ds) - dom ?m)
          = Suc (card (UID ` set ?ds - insert (UID d) (dom ?m)))"
        using fin by simp
      with n up c None show ?thesis by simp
    next
      case (Some q)
      then have "UID d \<in> dom ?m" by auto
      then have "UID ` set (d # ?ds) - dom ?m = UID ` set ?ds - insert (UID d) (dom ?m)"
        by auto
      with n up c Some show ?thesis by simp
    qed
    ultimately show ?thesis using pf tr Some by simp
  qed
qed

lemma pass_specStore_consistent:
  assumes "consistent (descriptors L rc)"
  shows "\<exists>st. traverseAndUpsertPlugins L specStore rc rows = (st, None)
           \<and> pluginMapOf (db st) = pluginMapOf rows ++ map_of (keyed (descriptors L rc))
           \<and> cnt st = card (UID ` set (descriptors L rc) - dom (pluginMapOf rows))"
proof -
  from traverseFiles_specStore_consistent [of L rc "File rc" "initState rows" "pluginMapOf rows"] assms
  obtain st' where tr: "traverseFiles L specStore (pluginMapOf rows) rc (File rc) (initState rows)
        = (st', None)"
    and m: "pluginMapOf (db st') = pluginMapOf rows ++ map_of (keyed (descriptors L rc))"
    and n: "cnt st' = card (UID ` set (descriptors L rc) - dom (pluginMapOf rows))"
    by (auto simp: descriptors_def initState_def)
  from tr m n show ?thesis
    by (simp add: traverseAndUpsertPlugins_def specStore_fields Let_def)
qed

lemma keyed_same_set:
  assumes "consistent ds" and "set ds' = set ds"
  shows "map_of (keyed ds') = map_of (keyed ds)"
proof (rule ext)
  fix k
  from assms have cons': "consistent ds'" by (simp add: consistent_def)
  show "map_of (keyed ds') k = map_of (keyed ds) k"
  proof (cases "map_of (keyed ds) k")
    case None
    then have "k \<notin> dom (map_of (keyed ds))" by auto
    then have "k \<notin> dom (map_of (keyed ds'))" using assms(2) by (simp add: keyed_dom)
    with None show ?thesis by auto
  next
    case (Some d)
    from keyed_SomeD [OF Some] assms(2) have "d \<in> set ds'" "UID d = k" by simp_all
    with keyed_consistent [OF cons', of d] Some show ?thesis by simp
  qed
qed

lemma upsert_specStore_present:
  assumes "idx (UID d) \<noteq> None \<Longrightarrow> UID d \<in> set (map UID (db st))"
  shows "set (map UID (db (upsert specStore idx f d st))) = insert (UID d) (set (map UID (db st)))"
proof (cases "idx (UID d)")
  case None
  from upsert_create(1) [where idx = idx and d = d and S = specStore and f = f and st = st, OF None]
  show ?thesis by (auto simp: specStore_fields)
next
  case (Some p)
  with assms have in_db: "UID d \<in> set (map UID (db st))" by simp
  show ?thesis
  proof (cases "Matches p d")
    case True
    from upsert_skip [where idx = idx and d = d and S = specStore and f = f and st = st, OF Some True]
      in_db
    show ?thesis by auto
  next
    case False
    have "map UID (map (\<lambda>q. if UID q = UID d then d else q) rows) = map UID rows" for rows
      by (induction rows) auto
    with upsert_update(1) [where idx = idx and d = d and S = specStore and f = f and st = st, OF Some False]
      in_db
    show ?thesis by (auto simp: specStore_fields simp del: map_map)
  qed
qed

lemma traverseFiles_specStore_present:
  assumes "\<And>k. idx k \<noteq> None \<Longrightarrow> k \<in> set (map UID (db st))"
  shows "\<exists>st'. traverseFiles L specStore idx rc files st = (st', None)
           \<and> set (map UID (db st'))
               = set (map UID (db st)) \<union> UID ` set (List.map_filter (descriptor L rc) files)"
  using assms
proof (induction files arbitrary: st)
  case Nil
  show ?case by simp
next
  case (Cons f files)
  show ?case
  proof (cases "descriptor L rc f")
    case None
    from processFile_no_descriptor [OF None, of specStore idx st]
    obtain st1 where pf: "processFile L specStore idx rc f st = Inr st1" and c: "db st1 = db st"
      by blast
    have "\<exists>st'. traverseFiles L specStore idx rc files st1 = (st', None)
           \<and> set (map UID (db st'))
               = set (map UID (db st1)) \<union> UID ` set (List.map_filter (descriptor L rc) files)"
      using Cons.prems c by (intro Cons.IH) simp
    with pf c None show ?thesis by simp
  next
    case (Some d)
    from processFile_descriptor [OF Some, of specStore idx st]
    obtain st1 where pf: "processFile L specStore idx rc f st = Inr (upsert specStore idx f d st1)"
      and c: "db st1 = db st"
      by blast
    let ?st2 = "upsert specStore idx f d st1"
    have up: "set (map UID (db ?st2)) = insert (UID d) (set (map UID (db st)))"
      using upsert_specStore_present [of idx d st1 f] Cons.prems [of "UID d"] c by simp
    have "\<exists>st'. traverseFiles L specStore idx rc files ?st2 = (st', None)
           \<and> set (map UID (db st'))
               = set (map UID (db ?st2)) \<union> UID ` set (List.map_filter (descriptor L rc) files)"
    proof (intro Cons.IH)
      fix k assume "idx k \<noteq> None"
      from Cons.prems [OF this] up show "k \<in> set (map UID (db ?st2))" by simp
    qed
    with pf up Some show ?thesis by auto
  qed
qed

lemma pass_specStore_present:
  "\<exists>st. traverseAndUpsertPlugins L specStore rc rows = (st, None)
     \<and> set (map UID (db st)) = set (map UID rows) \<union> UID ` set (descriptors L rc)"
proof -
  have "\<exists>st'. traverseFiles L specStore (pluginMapOf rows) rc (File rc) (initState rows) = (st', None)
           \<and> set (map UID (db st'))
               = set (map UID (db (initState rows)))
                 \<union> UID ` set (List.map_filter (descriptor L rc) (File rc))"
  proof (rule traverseFiles_specStore_present)
    fix k assume "pluginMapOf rows k \<noteq> None"
    then show "k \<in> set (map UID (db (initState rows)))"
      using pluginMapOf_None [of rows k] by (simp add: initState_def)
  qed
  then show ?thesis
    by (auto simp: traverseAndUpsertPlugins_def specStore_fields Let_def descriptors_def
        initState_def)
qed

lemma pluginMapOf_find: "pluginMapOf plugins k = find (\<lambda>p. UID p = k) (rev plugins)"
  by (induction plugins rule: rev_induct) (simp_all add: pluginMapOf_snoc pluginMapOf_Nil)

lemma UID_replaceRow: "UID (replaceRow d q) = UID q"
  by (simp add: replaceRow_def)

lemma replaceRow_other: "UID q \<noteq> UID d \<Longrightarrow> replaceRow d q = q"
  by (simp add: replaceRow_def)

lemma UIDs_replaceRow: "UID ` set_mset (image_mset (replaceRow d) M) = UID ` set_mset M"
proof -
  have "UID \<circ> replaceRow d = (UID :: plugin \<Rightarrow> string)"
    by (simp add: fun_eq_iff UID_replaceRow)
  then have "UID ` replaceRow d ` set_mset M = UID ` set_mset M"
    by (metis image_comp)
  then show ?thesis by simp
qed

lemma replaceRow_absent:
  assumes "UID d \<notin> set (map UID rows)"
  shows "map (replaceRow d) rows = rows"
  using assms by (induction rows) (auto simp: replaceRow_def)

lemma upsert_specStore_mset:
  "mset (db (upsert specStore idx f d st)) = rowsAfter idx d (mset (db st))"
proof (cases "idx (UID d)")
  case None
  from upsert_create(1) [where idx = idx and d = d and S = specStore and f = f and st = st, OF None] None
  show ?thesis by (simp add: specStore_fields rowsAfter_def addAbsent_def)
next
  case (Some p)
  show ?thesis
  proof (cases "Matches p d")
    case True
    from upsert_skip [where idx = idx and d = d and S = specStore and f = f and st = st, OF Some True]
      Some True
    show ?thesis by (simp add: rowsAfter_def)
  next
    case False
    note up = upsert_update(1) [where idx = idx and d = d and S = specStore and f = f and st = st, OF Some False]
    have fold: "(\<lambda>q. if UID q = UID d then d else q) = replaceRow d"
      by (simp add: fun_eq_iff replaceRow_def)
    show ?thesis
    proof (cases "UID d \<in> set (map UID (db st))")
      case True
      with up Some False show ?thesis
        by (simp add: specStore_fields rowsAfter_def fold)
    next
      case absent: False
      from replaceRow_absent [OF absent] have "mset (map (replaceRow d) (db st)) = mset (db st)"
        by simp
      then have "image_mset (replaceRow d) (mset (db st)) = mset (db st)" by simp
      with up Some False absent show ?thesis
        by (simp add: specStore_fields rowsAfter_def)
    qed
  qed
qed

lemma traverseFiles_specStore_mset:
  "\<exists>st'. traverseFiles L specStore idx rc files st = (st', None)
     \<and> mset (db st')
         = fold (rowsAfter idx) (List.map_filter (descriptor L rc) files) (mset (db st))"
proof (induction files arbitrary: st)
  case Nil
  show ?case by simp
next
  case (Cons f files)
  show ?case
  proof (cases "descriptor L rc f")
    case None
    from processFile_no_descriptor [OF None, of specStore idx st]
    obtain st1 where pf: "processFile L specStore idx rc f st = Inr st1" and c: "db st1 = db st"
      by blast
    from Cons.IH [of st1] pf c None show ?thesis by simp
  next
    case (Some d)
    from processFile_descriptor [OF Some, of specStore idx st]
    obtain st1 where pf: "processFile L specStore idx rc f st = Inr (upsert specStore idx f d st1)"
      and c: "db st1 = db st"
      by blast
    from Cons.IH [of "upsert specStore idx f d st1"] pf c Some show ?thesis
      by (simp add: upsert_specStore_mset)
  qed
qed

lemma UIDs_addAbsent:
  assumes "k \<noteq> UID d"
  shows "k \<in> UID ` set_mset (addAbsent d M) \<longleftrightarrow> k \<in> UID ` set_mset M"
proof (cases "UID d \<in> UID ` set_mset M")
  case True
  then show ?thesis by (simp add: addAbsent_def)
next
  case False
  then have "addAbsent d M = add_mset d M" by (simp add: addAbsent_def)
  with assms show ?thesis by simp
qed

lemma addAbsent_commute:
  assumes "UID d1 \<noteq> UID d2"
  shows "addAbsent d1 (addAbsent d2 M) = addAbsent d2 (addAbsent d1 M)"
proof -
  have m1: "UID d1 \<in> UID ` set_mset (addAbsent d2 M) \<longleftrightarrow> UID d1 \<in> UID ` set_mset M"
    using assms by (rule UIDs_addAbsent)
  have m2: "UID d2 \<in> UID ` set_mset (addAbsent d1 M) \<longleftrightarrow> UID d2 \<in> UID ` set_mset M"
    using assms [symmetric] by (rule UIDs_addAbsent)
  have "addAbsent d1 (addAbsent d2 M)
      = (if UID d1 \<in> UID ` set_mset M then addAbsent d2 M else add_mset d1 (addAbsent d2 M))"
    by (subst addAbsent_def) (simp only: m1)
  moreover have "addAbsent d2 (addAbsent d1 M)
      = (if UID d2 \<in> UID ` set_mset M then addAbsent d1 M else add_mset d2 (addAbsent d1 M))"
    by (subst addAbsent_def) (simp only: m2)
  ultimately show ?thesis
    by (simp add: addAbsent_def add_mset_commute)
qed

lemma addAbsent_replace_commute:
  assumes "UID d1 \<noteq> UID d2"
  shows "addAbsent d1 (image_mset (replaceRow d2) M) = image_mset (replaceRow d2) (addAbsent d1 M)"
proof -
  have "replaceRow d2 d1 = d1" using assms by (simp add: replaceRow_def)
  then show ?thesis
    by (simp add: addAbsent_def UIDs_replaceRow del: set_image_mset)
qed

lemma replace_commute:
  assumes "UID d1 \<noteq> UID d2"
  shows "image_mset (replaceRow d1) (image_mset (replaceRow d2) M)
         = image_mset (replaceRow d2) (image_mset (replaceRow d1) M)"
proof -
  have "replaceRow d1 (replaceRow d2 q) = replaceRow d2 (replaceRow d1 q)" for q
    using assms by (simp add: replaceRow_def)
  then show ?thesis
    by (simp add: multiset.map_comp comp_def)
qed

lemma rowsAfter_commute:
  assumes "UID d1 \<noteq> UID d2"
  shows "rowsAfter idx d1 (rowsAfter idx d2 M) = rowsAfter idx d2 (rowsAfter idx d1 M)"
proof (cases "idx (UID d1)")
  case n1: None
  show ?thesis
  proof (cases "idx (UID d2)")
    case n2: None
    with n1 addAbsent_commute [OF assms, of M] show ?thesis
      by (simp add: rowsAfter_def)
  next
    case s2: (Some p2)
    with n1 addAbsent_replace_commute [OF assms, of M] show ?thesis
      by (simp add: rowsAfter_def)
  qed
next
  case s1: (Some p1)
  show ?thesis
  proof (cases "idx (UID d2)")
    case n2: None
    with s1 addAbsent_replace_commute [OF assms [symmetric], of M] show ?thesis
      by (simp add: rowsAfter_def)
  next
    case s2: (Some p2)
    with s1 replace_commute [OF assms, of M] show ?thesis
      by (simp add: rowsAfter_def)
  qed
qed

lemma fold_rowsAfter_permuted:
  assumes "consistent ds" and "mset ds' = mset ds"
  shows "fold (rowsAfter idx) ds' M = fold (rowsAfter idx) ds M"
proof -
  have "rowsAfter idx x \<circ> rowsAfter idx y = rowsAfter idx y \<circ> rowsAfter idx x"
    if "x \<in> set ds" "y \<in> set ds" for x y
  proof (cases "UID x = UID y")
    case True
    with assms(1) that have "x = y" by (auto dest: consistentD)
    then show ?thesis by simp
  next
    case False
    then show ?thesis by (simp add: fun_eq_iff rowsAfter_commute)
  qed
  from fold_multiset_equiv [of ds "rowsAfter idx" ds', OF this assms(2) [symmetric]]
  show ?thesis by simp
qed

lemma pass_specStore_mset:
  "\<exists>st. traverseAndUpsertPlugins L specStore rc rows = (st, None)
     \<and> mset (db st) = fold (rowsAfter (pluginMapOf rows)) (descriptors L rc) (mset rows)"
  using traverseFiles_specStore_mset [of L "pluginMapOf rows" rc "File rc" "initState rows"]
  by (auto simp: traverseAndUpsertPlugins_def specStore_fields Let_def descriptors_def
      initState_def)

lemma processFile_descriptor_logs:
  assumes "descriptor L rc f = Some d"
  shows "processFile L S idx rc f st
         = Inr (upsert S idx f d (st\<lparr>logs := logs st @ logoLog L rc f\<rparr>))"
  using assms
  by (auto simp: descriptor_def processFile_def readLogo_def warn_def Let_def logoLog_def
      split: if_splits file_data.splits sum.splits config_spec.splits)

lemma upsert_create_logs:
  assumes "idx (UID d) = None"
  shows "logs (upsert S idx f d st)
         = logs st @ (case snd (Create S (db st) d) of
                        None \<Rightarrow> []
                      | Some e \<Rightarrow> [Warn (Some e) (Name f) ''could not create plugin in DB''])"
  using assms
  by (simp add: upsert_def warn_def Let_def split: prod.split option.split)

section \<open>Evaluating the examples\<close>

lemmas match_eval = Match.simps checkRest.simps pluginsPattern_def scanChunk_def Separator_def backslash_def

lemma dockerFile1_descriptor:
  "descriptor exampleLib (exampleArchive files) dockerFile1 = Some dockerV1"
  by (simp add: descriptor_def dockerFile1_def dockerV1_def exampleLib_def exampleParse_def
      exampleArchive_def match_eval)

lemma dockerFile2_descriptor:
  "descriptor exampleLib (exampleArchive files) dockerFile2 = Some dockerV2"
  by (simp add: descriptor_def dockerFile2_def dockerV2_def exampleLib_def exampleParse_def
      exampleArchive_def match_eval)

lemma slackFile_descriptor:
  "descriptor exampleLib (exampleArchive files) slackFile = Some slackV1"
  by (simp add: descriptor_def slackFile_def slackV1_def exampleLib_def exampleParse_def
      exampleArchive_def match_eval)

lemma File_exampleArchive: "File (exampleArchive files) = files"
  by (simp add: exampleArchive_def)

lemma two_docker_descriptors:
  "descriptors exampleLib (exampleArchive [dockerFile1, dockerFile2]) = [dockerV1, dockerV2]"
  by (simp add: descriptors_def map_filter_simps dockerFile1_descriptor dockerFile2_descriptor
      File_exampleArchive)

lemmas example_eval =
  traverseAndUpsertPlugins_def processFile_def upsert_def readLogo_def warn_def initState_def
  Let_def pluginMapOf_def Matches_def specStore_def exampleLib_def exampleParse_def
  exampleArchive_def dockerFile1_def dockerFile2_def slackFile_def dockerV1_def dockerV2_def
  slackV1_def match_eval

lemma two_docker_pass:
  "traverseAndUpsertPlugins exampleLib specStore (exampleArchive [dockerFile1, dockerFile2]) []
   = (\<lparr>db = [dockerV1],
        calls = [CallListAll, CallCreate dockerV1, CallCreate dockerV2],
        logs = [Warn (Some (Error ''identifier already exists''))
                  ''r/plugins/docker2/plugin.yaml'' ''could not create plugin in DB'',
                InfoMsgf ''added %d new entries to plugins'' 1],
        cnt = 1\<rparr>, None)"
  by (simp add: example_eval)

lemma dockerV2_differs: "\<not> Matches dockerV1 dockerV2"
  by (simp add: Matches_def dockerV1_def dockerV2_def)

lemma UID_docker: "UID dockerV1 = ''docker''" "UID dockerV2 = ''docker''"
  by (simp_all add: dockerV1_def dockerV2_def)

lemma docker_slack_descriptors:
  "descriptors exampleLib (exampleArchive [dockerFile1, slackFile]) = [dockerV1, slackV1]"
  "descriptors exampleLib (exampleArchive [slackFile, dockerFile1]) = [slackV1, dockerV1]"
  "descriptors exampleLib (exampleArchive [dockerFile1]) = [dockerV1]"
  by (simp_all add: descriptors_def dockerFile1_descriptor slackFile_descriptor
      File_exampleArchive)

lemma UID_slack: "UID slackV1 = ''slack''"
  by (simp add: slackV1_def)

lemma two_docker_second_pass:
  "traverseAndUpsertPlugins exampleLib specStore (exampleArchive [dockerFile1, dockerFile2])
     [dockerV1]
   = (\<lparr>db = [dockerV2],
        calls = [CallListAll, CallUpdate dockerV2],
        logs = [Info ''r/plugins/docker2/plugin.yaml''
                  ''detected changes: updated existing plugin entry'',
                InfoMsgf ''added %d new entries to plugins'' 0],
        cnt = 0\<rparr>, None)"
  by (simp add: example_eval)

lemma two_docker_pass_reversed:
  "traverseAndUpsertPlugins exampleLib specStore (exampleArchive [dockerFile2, dockerFile1]) []
   = (\<lparr>db = [dockerV2],
        calls = [CallListAll, CallCreate dockerV2, CallCreate dockerV1],
        logs = [Warn (Some (Error ''identifier already exists''))
                  ''r/plugins/docker/plugin.yaml'' ''could not create plugin in DB'',
                InfoMsgf ''added %d new entries to plugins'' 1],
        cnt = 1\<rparr>, None)"
  by (simp add: example_eval)

lemma dockerFile1b_descriptor:
  "descriptor exampleLib (exampleArchive files) dockerFile1b = Some dockerV1"
  by (simp add: descriptor_def dockerFile1b_def dockerV1_def exampleLib_def exampleParse_def
      exampleArchive_def match_eval)

lemma more_descriptors:
  "descriptors exampleLib (exampleArchive [dockerFile1, dockerFile1b, slackFile])
     = [dockerV1, dockerV1, slackV1]"
  "descriptors exampleLib (exampleArchive [slackFile, dockerFile1, dockerFile2])
     = [slackV1, dockerV1, dockerV2]"
  "descriptors exampleLib (exampleArchive [dockerFile2, dockerFile1]) = [dockerV2, dockerV1]"
  by (simp_all add: descriptors_def dockerFile1_descriptor dockerFile1b_descriptor
      dockerFile2_descriptor slackFile_descriptor File_exampleArchive)

lemma docker_versions_differ: "dockerV1 \<noteq> dockerV2"
  by (simp add: dockerV1_def dockerV2_def)

lemma UIDs_differ: "UID dockerV1 \<noteq> UID slackV1" "UID slackV1 \<noteq> UID dockerV1"
  "UID dockerV2 \<noteq> UID slackV1" "UID slackV1 \<noteq> UID dockerV2"
  by (simp_all add: UID_docker UID_slack)

lemma example_consistent: "consistent [dockerV1, dockerV1, slackV1]"
  by (simp add: consistent_def UIDs_differ)

lemma example_inconsistent: "\<not> consistent [dockerV1, dockerV2]"
  by (simp add: consistent_def UID_docker docker_versions_differ)

section \<open>The claims\<close>

text \<open>
  C1 (the code departs from the claim). The claim: every entry whose path is
  \<^verbatim>\<open>plugins/<dir>/<file>.yaml\<close> at any depth is selected, also at the archive
  root and several directories deep. In \<^verbatim>\<open>filepath.Match\<close> a double star is
  a single star and never crosses a separator, so the pattern selects exactly
  the names \<open>a/plugins/b/c.yaml\<close> with no separator in \<open>a\<close>, \<open>b\<close> and \<open>c\<close>:
  one directory, no more and no less, precedes \<^verbatim>\<open>plugins\<close>. The entry
  \<^verbatim>\<open>plugins/docker/plugin.yaml\<close> of the spec's scenario is not selected, nor is
  one nested two directories deep, and the loop body leaves the state as it is
  for such an entry whatever its contents.
\<close>

theorem root_level_manifest_not_selected:
  "Match pluginsPattern name =
     Inr (\<exists>a b c. name = a @ ''/plugins/'' @ b @ ''/'' @ c @ ''.yaml''
            \<and> Separator \<notin> set a \<and> Separator \<notin> set b \<and> Separator \<notin> set c)
   \<and> Match pluginsPattern ''plugins/docker/plugin.yaml'' = Inr False
   \<and> Match pluginsPattern ''a/b/plugins/docker/plugin.yaml'' = Inr False
   \<and> processFile L S idx rc \<lparr>Name = ''plugins/docker/plugin.yaml'', contents = data\<rparr> st
       = Inr st"
  using selected_iff [of name] by (simp add: processFile_def match_eval)

text \<open>
  C2 (as stated it fails). The claim has a second pass over the same archive
  make no write. With two entries of the same identifier and different content
  the first pass stores the first one, its \<open>Create\<close> of the second being
  refused, and the second pass finds the second one changed and updates it.
\<close>

theorem second_pass_update_counterexample:
  "db (fst (traverseAndUpsertPlugins exampleLib specStore
              (exampleArchive [dockerFile1, dockerFile2]) [])) = [dockerV1]
   \<and> calls (fst (traverseAndUpsertPlugins exampleLib specStore
                   (exampleArchive [dockerFile1, dockerFile2]) [dockerV1]))
       = [CallListAll, CallUpdate dockerV2]"
  by (simp add: two_docker_pass two_docker_second_pass)

text \<open>
  C2, amended. On the store of the spec, a second pass over the same archive
  lists the store and makes no other call, leaving the store as it is and the
  count at 0, exactly when the descriptors parsed from the archive agree (any
  two entries with the same identifier parse to the same descriptor). When two
  entries parse to one identifier with different content, the second pass
  makes an \<open>Update\<close> call.
\<close>

theorem second_pass_silent_iff_consistent:
  "\<exists>st1 st2. traverseAndUpsertPlugins L specStore rc rows = (st1, None)
     \<and> traverseAndUpsertPlugins L specStore rc (db st1) = (st2, None)
     \<and> (if consistent (descriptors L rc)
        then calls st2 = [CallListAll] \<and> db st2 = db st1 \<and> cnt st2 = 0
        else \<exists>d. d \<in> set (descriptors L rc) \<and> CallUpdate d \<in> set (calls st2))"
proof (cases "consistent (descriptors L rc)")
  case True
  from pass_specStore_consistent [OF True, of rows]
  obtain st1 where p1: "traverseAndUpsertPlugins L specStore rc rows = (st1, None)"
    and m: "pluginMapOf (db st1) = pluginMapOf rows ++ map_of (keyed (descriptors L rc))"
    by blast
  have held: "pluginMapOf (db st1) (UID d) = Some d"
    if "d \<in> set (List.map_filter (descriptor L rc) (File rc))" for d
    using keyed_consistent [OF True, of d] that by (simp add: m descriptors_def)
  from traverseFiles_all_skip [of L rc "File rc" "pluginMapOf (db st1)" specStore "initState (db st1)", OF held]
  obtain st' where tr: "traverseFiles L specStore (pluginMapOf (db st1)) rc (File rc) (initState (db st1))
        = (st', None)"
    and c: "db st' = db st1" "calls st' = [CallListAll]" "cnt st' = 0"
    by (auto simp: initState_def)
  from tr c have "\<exists>st2. traverseAndUpsertPlugins L specStore rc (db st1) = (st2, None)
           \<and> calls st2 = [CallListAll] \<and> db st2 = db st1 \<and> cnt st2 = 0"
    by (simp add: traverseAndUpsertPlugins_def specStore_fields Let_def)
  with p1 True show ?thesis by auto
next
  case False
  then obtain d1 d2 where d: "d1 \<in> set (descriptors L rc)" "d2 \<in> set (descriptors L rc)"
    and u: "UID d1 = UID d2" and ne: "d1 \<noteq> d2"
    by (auto simp: consistent_def)
  from pass_specStore_present [of L rc rows]
  obtain st1 where p1: "traverseAndUpsertPlugins L specStore rc rows = (st1, None)"
    and pres: "set (map UID (db st1)) = set (map UID rows) \<union> UID ` set (descriptors L rc)"
    by blast
  from d(1) pres have "UID d1 \<in> set (map UID (db st1))" by auto
  then obtain q where q: "pluginMapOf (db st1) (UID d1) = Some q"
    using pluginMapOf_None [of "db st1" "UID d1"] by auto
  from pluginMapOf_Some [OF q] have uq: "UID q = UID d1" by simp
  define idx where "idx = pluginMapOf (db st1)"
  have changed: "callsFor idx e = [CallUpdate e]" if "UID e = UID d1" "e \<noteq> q" for e
  proof -
    have "\<not> Matches q e"
    proof
      assume "Matches q e"
      moreover from uq that have "UID q = UID e" by simp
      ultimately have "q = e" by (rule Matches_same_UID)
      with that show False by simp
    qed
    with q that show ?thesis by (simp add: callsFor_def idx_def)
  qed
  from ne have "d1 \<noteq> q \<or> d2 \<noteq> q" by auto
  with d u changed obtain e where e: "e \<in> set (descriptors L rc)" "callsFor idx e = [CallUpdate e]"
    by metis
  from traverseFiles_trace [of L specStore idx rc "File rc" "initState (db st1)"]
  obtain st' where tr: "traverseFiles L specStore idx rc (File rc) (initState (db st1)) = (st', None)"
    and c: "calls st' = CallListAll # concat (map (callsFor idx) (descriptors L rc))"
    by (auto simp: initState_def descriptors_def)
  from e c have "CallUpdate e \<in> set (calls st')" by force
  with tr e(1) have "\<exists>st2. traverseAndUpsertPlugins L specStore rc (db st1) = (st2, None)
      \<and> (\<exists>d. d \<in> set (descriptors L rc) \<and> CallUpdate d \<in> set (calls st2))"
    by (auto simp: traverseAndUpsertPlugins_def specStore_fields Let_def idx_def)
  with p1 False show ?thesis by auto
qed

theorem second_pass_silent_iff_consistent_witness:
  "consistent (descriptors exampleLib (exampleArchive [dockerFile1, dockerFile1b, slackFile]))
   \<and> (\<exists>st1 st2. traverseAndUpsertPlugins exampleLib specStore
                    (exampleArchive [dockerFile1, dockerFile1b, slackFile]) [dockerV2] = (st1, None)
          \<and> traverseAndUpsertPlugins exampleLib specStore
               (exampleArchive [dockerFile1, dockerFile1b, slackFile]) (db st1) = (st2, None)
          \<and> calls st2 = [CallListAll] \<and> db st2 = db st1 \<and> cnt st2 = 0)
   \<and> \<not> consistent (descriptors exampleLib (exampleArchive [dockerFile1, dockerFile2]))
   \<and> (\<exists>st1 st2. traverseAndUpsertPlugins exampleLib specStore
                    (exampleArchive [dockerFile1, dockerFile2]) [] = (st1, None)
          \<and> traverseAndUpsertPlugins exampleLib specStore
               (exampleArchive [dockerFile1, dockerFile2]) (db st1) = (st2, None)
          \<and> (\<exists>d. d \<in> set (descriptors exampleLib (exampleArchive [dockerFile1, dockerFile2]))
                \<and> CallUpdate d \<in> set (calls st2)))"
proof -
  have h1: "consistent (descriptors exampleLib (exampleArchive [dockerFile1, dockerFile1b, slackFile]))"
    by (simp add: more_descriptors example_consistent)
  have h2: "\<not> consistent (descriptors exampleLib (exampleArchive [dockerFile1, dockerFile2]))"
    by (simp add: two_docker_descriptors example_inconsistent)
  from second_pass_silent_iff_consistent
    [of exampleLib "exampleArchive [dockerFile1, dockerFile1b, slackFile]" "[dockerV2]"] h1
  have c1: "\<exists>st1 st2. traverseAndUpsertPlugins exampleLib specStore
                    (exampleArchive [dockerFile1, dockerFile1b, slackFile]) [dockerV2] = (st1, None)
          \<and> traverseAndUpsertPlugins exampleLib specStore
               (exampleArchive [dockerFile1, dockerFile1b, slackFile]) (db st1) = (st2, None)
          \<and> calls st2 = [CallListAll] \<and> db st2 = db st1 \<and> cnt st2 = 0"
    by simp
  from second_pass_silent_iff_consistent
    [of exampleLib "exampleArchive [dockerFile1, dockerFile2]" "[]"] h2
  have c2: "\<exists>st1 st2. traverseAndUpsertPlugins exampleLib specStore
                    (exampleArchive [dockerFile1, dockerFile2]) [] = (st1, None)
          \<and> traverseAndUpsertPlugins exampleLib specStore
               (exampleArchive [dockerFile1, dockerFile2]) (db st1) = (st2, None)
          \<and> (\<exists>d. d \<in> set (descriptors exampleLib (exampleArchive [dockerFile1, dockerFile2]))
                \<and> CallUpdate d \<in> set (calls st2))"
    by simp
  from h1 h2 c1 c2 show ?thesis by blast
qed

text \<open>
  C3 (as stated it fails). The claim has the catalog after a pass independent
  of the traversal order also when two entries share an identifier. On an empty
  catalog the entry that comes first is created and the other one refused, so
  the two orders leave different descriptors.
\<close>

theorem traversal_order_counterexample:
  "mset [dockerFile2, dockerFile1] = mset [dockerFile1, dockerFile2]
   \<and> db (fst (traverseAndUpsertPlugins exampleLib specStore
                (exampleArchive [dockerFile1, dockerFile2]) [])) = [dockerV1]
   \<and> db (fst (traverseAndUpsertPlugins exampleLib specStore
                (exampleArchive [dockerFile2, dockerFile1]) [])) = [dockerV2]
   \<and> dockerV1 \<noteq> dockerV2"
  by (simp add: two_docker_pass two_docker_pass_reversed dockerV1_def dockerV2_def)

text \<open>
  C3, amended. When the descriptors parsed from the archive agree (any two
  entries with the same identifier parse to the same descriptor, which allows a
  manifest to occur more than once), two archives that hold the same entries in
  a different order leave, from any catalog, the same stored descriptors, the
  same map from identifier to descriptor and the same count.
\<close>

theorem order_irrelevant_for_consistent_descriptors:
  assumes "mset (File rc') = mset (File rc)" and "Open rc' = Open rc"
    and "consistent (descriptors L rc)"
  shows "\<exists>st st'. traverseAndUpsertPlugins L specStore rc rows = (st, None)
           \<and> traverseAndUpsertPlugins L specStore rc' rows = (st', None)
           \<and> pluginMapOf (db st') = pluginMapOf (db st) \<and> cnt st' = cnt st
           \<and> mset (db st') = mset (db st)"
proof -
  let ?ds = "descriptors L rc" and ?ds' = "descriptors L rc'"
  have ms: "mset ?ds' = mset ?ds" using assms(1,2) by (rule descriptors_permuted)
  then have se: "set ?ds' = set ?ds" by (rule mset_eq_setD)
  with assms(3) have cons': "consistent ?ds'" by (simp add: consistent_def)
  from pass_specStore_consistent [OF assms(3), of rows]
  obtain st where p: "traverseAndUpsertPlugins L specStore rc rows = (st, None)"
    and m: "pluginMapOf (db st) = pluginMapOf rows ++ map_of (keyed ?ds)"
    and n: "cnt st = card (UID ` set ?ds - dom (pluginMapOf rows))"
    by blast
  from pass_specStore_consistent [OF cons', of rows]
  obtain st' where p': "traverseAndUpsertPlugins L specStore rc' rows = (st', None)"
    and m': "pluginMapOf (db st') = pluginMapOf rows ++ map_of (keyed ?ds')"
    and n': "cnt st' = card (UID ` set ?ds' - dom (pluginMapOf rows))"
    by blast
  from keyed_same_set [OF assms(3) se] m m'
  have eq: "pluginMapOf (db st') = pluginMapOf (db st)" by simp
  from pass_specStore_mset [of L rc rows] p
  have r: "mset (db st) = fold (rowsAfter (pluginMapOf rows)) ?ds (mset rows)" by simp
  from pass_specStore_mset [of L rc' rows] p'
  have r': "mset (db st') = fold (rowsAfter (pluginMapOf rows)) ?ds' (mset rows)" by simp
  from fold_rowsAfter_permuted [OF assms(3) ms] r r'
  have "mset (db st') = mset (db st)" by simp
  moreover from n n' se have "cnt st' = cnt st" by simp
  ultimately show ?thesis using p p' eq by blast
qed

theorem order_irrelevant_for_consistent_descriptors_witness:
  "mset (File (exampleArchive [slackFile, dockerFile1b, dockerFile1]))
     = mset (File (exampleArchive [dockerFile1, dockerFile1b, slackFile]))
   \<and> Open (exampleArchive [slackFile, dockerFile1b, dockerFile1])
       = Open (exampleArchive [dockerFile1, dockerFile1b, slackFile])
   \<and> consistent (descriptors exampleLib (exampleArchive [dockerFile1, dockerFile1b, slackFile]))
   \<and> (\<exists>st st'. traverseAndUpsertPlugins exampleLib specStore
                    (exampleArchive [dockerFile1, dockerFile1b, slackFile]) [dockerV2] = (st, None)
          \<and> traverseAndUpsertPlugins exampleLib specStore
               (exampleArchive [slackFile, dockerFile1b, dockerFile1]) [dockerV2] = (st', None)
          \<and> pluginMapOf (db st') = pluginMapOf (db st) \<and> cnt st' = cnt st
          \<and> mset (db st') = mset (db st))"
proof -
  have h1: "mset (File (exampleArchive [slackFile, dockerFile1b, dockerFile1]))
     = mset (File (exampleArchive [dockerFile1, dockerFile1b, slackFile]))"
    by (simp add: File_exampleArchive add_mset_commute)
  have h2: "Open (exampleArchive [slackFile, dockerFile1b, dockerFile1])
     = Open (exampleArchive [dockerFile1, dockerFile1b, slackFile])"
    by (simp add: exampleArchive_def)
  have h3: "consistent (descriptors exampleLib (exampleArchive [dockerFile1, dockerFile1b, slackFile]))"
    by (simp add: more_descriptors example_consistent)
  from order_irrelevant_for_consistent_descriptors [OF h1 h2 h3, of "[dockerV2]"] h1 h2 h3
  show ?thesis by blast
qed

text \<open>
  C4. A descriptor whose identifier is in the index built before the loop and
  whose content identity equals the indexed descriptor's causes no store call:
  the iteration leaves the store, the list of calls and the count as they were.
\<close>

theorem unchanged_descriptor_no_store_call:
  assumes "ListAll S s = Inr plugins"
    and "descriptor L rc file = Some d"
    and "pluginMapOf plugins (UID d) = Some p"
    and "Matches p d"
  shows "\<exists>st'. processFile L S (pluginMapOf plugins) rc file st = Inr st'
           \<and> db st' = db st \<and> calls st' = calls st \<and> cnt st' = cnt st"
  using processFile_descriptor [OF assms(2), of S "pluginMapOf plugins" st]
    upsert_skip [where idx = "pluginMapOf plugins" and d = d and S = S and f = "file", OF assms(3) assms(4)]
  by auto

theorem unchanged_descriptor_no_store_call_witness:
  "ListAll specStore [dockerV1] = Inr [dockerV1]
   \<and> descriptor exampleLib (exampleArchive [dockerFile1]) dockerFile1 = Some dockerV1
   \<and> pluginMapOf [dockerV1] (UID dockerV1) = Some dockerV1
   \<and> Matches dockerV1 dockerV1
   \<and> (\<exists>st'. processFile exampleLib specStore (pluginMapOf [dockerV1])
                (exampleArchive [dockerFile1]) dockerFile1 (initState [dockerV1]) = Inr st'
          \<and> db st' = [dockerV1] \<and> calls st' = [CallListAll] \<and> cnt st' = 0)"
proof -
  have h1: "ListAll specStore [dockerV1] = Inr [dockerV1]"
    by (simp add: specStore_def)
  have h2: "descriptor exampleLib (exampleArchive [dockerFile1]) dockerFile1 = Some dockerV1"
    by (rule dockerFile1_descriptor)
  have h3: "pluginMapOf [dockerV1] (UID dockerV1) = Some dockerV1"
    by (simp add: pluginMapOf_def)
  have h4: "Matches dockerV1 dockerV1"
    by (simp add: Matches_def)
  from unchanged_descriptor_no_store_call [OF h1 h2 h3 h4, of "initState [dockerV1]"]
  show ?thesis using h1 h2 h3 h4 by (simp add: initState_def)
qed

text \<open>
  C5 (as stated it fails). The claim has the count go up by one for every
  descriptor whose identifier is not in the index. The code counts a create
  only when the store accepts it: with two entries of the same new identifier
  both are sent to \<open>Create\<close>, the second is refused, and the count is 1.
\<close>

theorem failed_create_not_counted_counterexample:
  "descriptors exampleLib (exampleArchive [dockerFile1, dockerFile2]) = [dockerV1, dockerV2]
   \<and> pluginMapOf [] (UID dockerV1) = None
   \<and> pluginMapOf [] (UID dockerV2) = None
   \<and> calls (fst (traverseAndUpsertPlugins exampleLib specStore
                   (exampleArchive [dockerFile1, dockerFile2]) []))
       = [CallListAll, CallCreate dockerV1, CallCreate dockerV2]
   \<and> cnt (fst (traverseAndUpsertPlugins exampleLib specStore
                   (exampleArchive [dockerFile1, dockerFile2]) [])) = 1"
  by (simp add: two_docker_descriptors two_docker_pass pluginMapOf_def)

text \<open>
  C5, amended. For every descriptor whose identifier is not in the index the
  iteration calls \<open>Create\<close> exactly once; the count goes up by one when that call
  succeeds, and when it fails the count stays, the failure is logged and the loop
  goes on to the next entry. For an identifier that is in the index the count
  stays.
\<close>

theorem create_counted_only_on_success:
  assumes "ListAll S s = Inr plugins"
    and "descriptor L rc file = Some d"
  shows "\<exists>st'. processFile L S (pluginMapOf plugins) rc file st = Inr st'
           \<and> traverseFiles L S (pluginMapOf plugins) rc (file # files) st
               = traverseFiles L S (pluginMapOf plugins) rc files st'
           \<and> (case pluginMapOf plugins (UID d) of
                None \<Rightarrow>
                  calls st' = calls st @ [CallCreate d]
                  \<and> db st' = fst (Create S (db st) d)
                  \<and> (case snd (Create S (db st) d) of
                       None \<Rightarrow>
                         cnt st' = cnt st + 1
                         \<and> logs st' = logs st @ logoLog L rc file
                     | Some e \<Rightarrow>
                         cnt st' = cnt st
                         \<and> logs st' = logs st @ logoLog L rc file
                              @ [Warn (Some e) (Name file) ''could not create plugin in DB''])
              | Some p \<Rightarrow> cnt st' = cnt st)"
proof -
  let ?st1 = "st\<lparr>logs := logs st @ logoLog L rc file\<rparr>"
  let ?idx = "pluginMapOf plugins"
  have pf: "processFile L S ?idx rc file st = Inr (upsert S ?idx file d ?st1)"
    using assms(2) by (rule processFile_descriptor_logs)
  have shape: "case ?idx (UID d) of
                None \<Rightarrow>
                  calls (upsert S ?idx file d ?st1) = calls st @ [CallCreate d]
                  \<and> db (upsert S ?idx file d ?st1) = fst (Create S (db st) d)
                  \<and> (case snd (Create S (db st) d) of
                       None \<Rightarrow>
                         cnt (upsert S ?idx file d ?st1) = cnt st + 1
                         \<and> logs (upsert S ?idx file d ?st1) = logs st @ logoLog L rc file
                     | Some e \<Rightarrow>
                         cnt (upsert S ?idx file d ?st1) = cnt st
                         \<and> logs (upsert S ?idx file d ?st1) = logs st @ logoLog L rc file
                              @ [Warn (Some e) (Name file) ''could not create plugin in DB''])
              | Some p \<Rightarrow> cnt (upsert S ?idx file d ?st1) = cnt st"
  proof (cases "?idx (UID d)")
    case None
    from upsert_create [where idx = ?idx and d = d and S = S and f = "file" and st = ?st1, OF None]
      upsert_create_logs [where idx = ?idx and d = d and S = S and f = "file" and st = ?st1, OF None]
      None
    show ?thesis by (simp split: option.split)
  next
    case (Some p)
    show ?thesis
    proof (cases "Matches p d")
      case True
      from upsert_skip [where idx = ?idx and d = d and S = S and f = "file" and st = ?st1, OF Some True]
        Some
      show ?thesis by simp
    next
      case False
      from upsert_update(3) [where idx = ?idx and d = d and S = S and f = "file" and st = ?st1, OF Some False]
        Some
      show ?thesis by simp
    qed
  qed
  from pf shape show ?thesis by simp
qed

theorem create_counted_only_on_success_witness:
  "ListAll specStore [] = Inr []
   \<and> descriptor exampleLib (exampleArchive [dockerFile1, dockerFile2]) dockerFile1 = Some dockerV1
   \<and> descriptor exampleLib (exampleArchive [dockerFile1, dockerFile2]) dockerFile2 = Some dockerV2
   \<and> (\<exists>st'. processFile exampleLib specStore (pluginMapOf [])
                (exampleArchive [dockerFile1, dockerFile2]) dockerFile1 (initState []) = Inr st'
          \<and> calls st' = [CallListAll, CallCreate dockerV1] \<and> db st' = [dockerV1] \<and> cnt st' = 1
          \<and> logs st' = [])
   \<and> (\<exists>st'. processFile exampleLib specStore (pluginMapOf [])
                (exampleArchive [dockerFile1, dockerFile2]) dockerFile2
                \<lparr>db = [dockerV1], calls = [CallListAll, CallCreate dockerV1], logs = [], cnt = 1\<rparr>
              = Inr st'
          \<and> traverseFiles exampleLib specStore (pluginMapOf [])
                (exampleArchive [dockerFile1, dockerFile2]) [dockerFile2, slackFile]
                \<lparr>db = [dockerV1], calls = [CallListAll, CallCreate dockerV1], logs = [], cnt = 1\<rparr>
              = traverseFiles exampleLib specStore (pluginMapOf [])
                  (exampleArchive [dockerFile1, dockerFile2]) [slackFile] st'
          \<and> calls st' = [CallListAll, CallCreate dockerV1, CallCreate dockerV2]
          \<and> db st' = [dockerV1] \<and> cnt st' = 1
          \<and> logs st' = [Warn (Some (Error ''identifier already exists''))
                           ''r/plugins/docker2/plugin.yaml'' ''could not create plugin in DB''])"
proof -
  have h1: "ListAll specStore [] = Inr []"
    by (simp add: specStore_fields)
  have h2: "descriptor exampleLib (exampleArchive [dockerFile1, dockerFile2]) dockerFile1
      = Some dockerV1"
    by (rule dockerFile1_descriptor)
  have h3: "descriptor exampleLib (exampleArchive [dockerFile1, dockerFile2]) dockerFile2
      = Some dockerV2"
    by (rule dockerFile2_descriptor)
  have lg: "logoLog exampleLib (exampleArchive fs) f = []" for fs f
    by (simp add: logoLog_def exampleArchive_def)
  have nm: "Name dockerFile2 = ''r/plugins/docker2/plugin.yaml''"
    by (simp add: dockerFile2_def)
  from create_counted_only_on_success [OF h1 h2, of "initState []" "[]"]
  have c1: "\<exists>st'. processFile exampleLib specStore (pluginMapOf [])
                (exampleArchive [dockerFile1, dockerFile2]) dockerFile1 (initState []) = Inr st'
          \<and> calls st' = [CallListAll, CallCreate dockerV1] \<and> db st' = [dockerV1] \<and> cnt st' = 1
          \<and> logs st' = []"
    by (auto simp: pluginMapOf_def initState_def specStore_fields UID_docker lg
        simp del: traverseFiles.simps)
  from create_counted_only_on_success [OF h1 h3,
      of "\<lparr>db = [dockerV1], calls = [CallListAll, CallCreate dockerV1], logs = [], cnt = 1\<rparr>"
        "[slackFile]"]
  have c2: "\<exists>st'. processFile exampleLib specStore (pluginMapOf [])
                (exampleArchive [dockerFile1, dockerFile2]) dockerFile2
                \<lparr>db = [dockerV1], calls = [CallListAll, CallCreate dockerV1], logs = [], cnt = 1\<rparr>
              = Inr st'
          \<and> traverseFiles exampleLib specStore (pluginMapOf [])
                (exampleArchive [dockerFile1, dockerFile2]) [dockerFile2, slackFile]
                \<lparr>db = [dockerV1], calls = [CallListAll, CallCreate dockerV1], logs = [], cnt = 1\<rparr>
              = traverseFiles exampleLib specStore (pluginMapOf [])
                  (exampleArchive [dockerFile1, dockerFile2]) [slackFile] st'
          \<and> calls st' = [CallListAll, CallCreate dockerV1, CallCreate dockerV2]
          \<and> db st' = [dockerV1] \<and> cnt st' = 1
          \<and> logs st' = [Warn (Some (Error ''identifier already exists''))
                           ''r/plugins/docker2/plugin.yaml'' ''could not create plugin in DB'']"
    by (auto simp: pluginMapOf_def specStore_fields UID_docker lg nm
        simp del: traverseFiles.simps)
  from h1 h2 h3 c1 c2 show ?thesis by blast
qed

text \<open>
  C6. A descriptor whose identifier is in the index with a different content
  identity causes exactly one \<open>Update\<close> call, the count stays, and whether or not
  the store accepts the update the loop goes on to the next entry.
\<close>

theorem changed_descriptor_updated_once:
  assumes "ListAll S s = Inr plugins"
    and "descriptor L rc file = Some d"
    and "pluginMapOf plugins (UID d) = Some p"
    and "\<not> Matches p d"
  shows "\<exists>st'. processFile L S (pluginMapOf plugins) rc file st = Inr st'
           \<and> calls st' = calls st @ [CallUpdate d]
           \<and> db st' = fst (Update S (db st) d)
           \<and> cnt st' = cnt st
           \<and> traverseFiles L S (pluginMapOf plugins) rc (file # files) st
               = traverseFiles L S (pluginMapOf plugins) rc files st'"
proof -
  obtain st1 where pf: "processFile L S (pluginMapOf plugins) rc file st
        = Inr (upsert S (pluginMapOf plugins) file d st1)"
    and st1: "db st1 = db st" "calls st1 = calls st" "cnt st1 = cnt st"
    using processFile_descriptor [OF assms(2), of S "pluginMapOf plugins" st] by blast
  from upsert_update [where idx = "pluginMapOf plugins" and d = d and S = S and f = "file" and st = st1, OF assms(3) assms(4)] pf st1
  show ?thesis by simp
qed

theorem changed_descriptor_updated_once_witness:
  "ListAll specStore [dockerV1] = Inr [dockerV1]
   \<and> ListAll downStore [dockerV1] = Inr [dockerV1]
   \<and> descriptor exampleLib (exampleArchive [dockerFile2, slackFile]) dockerFile2 = Some dockerV2
   \<and> pluginMapOf [dockerV1] (UID dockerV2) = Some dockerV1
   \<and> \<not> Matches dockerV1 dockerV2
   \<and> (\<exists>st'. processFile exampleLib specStore (pluginMapOf [dockerV1])
                (exampleArchive [dockerFile2, slackFile]) dockerFile2 (initState [dockerV1]) = Inr st'
          \<and> calls st' = [CallListAll, CallUpdate dockerV2] \<and> db st' = [dockerV2] \<and> cnt st' = 0)
   \<and> (\<exists>st'. processFile exampleLib downStore (pluginMapOf [dockerV1])
                (exampleArchive [dockerFile2, slackFile]) dockerFile2 (initState [dockerV1]) = Inr st'
          \<and> calls st' = [CallListAll, CallUpdate dockerV2] \<and> db st' = [dockerV1] \<and> cnt st' = 0
          \<and> traverseFiles exampleLib downStore (pluginMapOf [dockerV1])
                (exampleArchive [dockerFile2, slackFile]) [dockerFile2, slackFile] (initState [dockerV1])
              = traverseFiles exampleLib downStore (pluginMapOf [dockerV1])
                  (exampleArchive [dockerFile2, slackFile]) [slackFile] st')"
proof -
  have h1: "ListAll specStore [dockerV1] = Inr [dockerV1]"
    by (simp add: specStore_fields)
  have h1': "ListAll downStore [dockerV1] = Inr [dockerV1]"
    by (simp add: downStore_fields)
  have h2: "descriptor exampleLib (exampleArchive [dockerFile2, slackFile]) dockerFile2
      = Some dockerV2"
    by (rule dockerFile2_descriptor)
  have h3: "pluginMapOf [dockerV1] (UID dockerV2) = Some dockerV1"
    by (simp add: pluginMapOf_def UID_docker)
  have h4: "\<not> Matches dockerV1 dockerV2"
    by (rule dockerV2_differs)
  from changed_descriptor_updated_once [OF h1 h2 h3 h4, of "initState [dockerV1]" "[slackFile]"]
  have c1: "\<exists>st'. processFile exampleLib specStore (pluginMapOf [dockerV1])
                (exampleArchive [dockerFile2, slackFile]) dockerFile2 (initState [dockerV1]) = Inr st'
          \<and> calls st' = [CallListAll, CallUpdate dockerV2] \<and> db st' = [dockerV2] \<and> cnt st' = 0"
    by (auto simp: initState_def specStore_fields UID_docker)
  from changed_descriptor_updated_once [OF h1' h2 h3 h4, of "initState [dockerV1]" "[slackFile]"]
  have c2: "\<exists>st'. processFile exampleLib downStore (pluginMapOf [dockerV1])
                (exampleArchive [dockerFile2, slackFile]) dockerFile2 (initState [dockerV1]) = Inr st'
          \<and> calls st' = [CallListAll, CallUpdate dockerV2] \<and> db st' = [dockerV1] \<and> cnt st' = 0
          \<and> traverseFiles exampleLib downStore (pluginMapOf [dockerV1])
                (exampleArchive [dockerFile2, slackFile]) [dockerFile2, slackFile] (initState [dockerV1])
              = traverseFiles exampleLib downStore (pluginMapOf [dockerV1])
                  (exampleArchive [dockerFile2, slackFile]) [slackFile] st'"
    by (auto simp: initState_def downStore_fields simp del: traverseFiles.simps)
  from h1 h1' h2 h3 h4 c1 c2 show ?thesis by blast
qed

text \<open>
  C7 (as stated it fails). The claim has a response with a status code
  outside 2xx fail the fetch. \<^verbatim>\<open>http.Get\<close> returns such a response
  without an error and \<^verbatim>\<open>downloadZip\<close> does not look at the status code:
  the body of a 404 response is written to the temporary file, and when the zip
  reader accepts it \<^verbatim>\<open>Populate\<close> runs the pass on it and returns no error.
\<close>

theorem non_2xx_body_processed_counterexample:
  "StatusCode notFoundResponse = 404
   \<and> Get exampleEnv ''https://example.com/plugins.zip'' = Inr notFoundResponse
   \<and> downloadZip exampleEnv Map.empty ''https://example.com/plugins.zip'' ''/tmp/plugins.zip1''
       = ([''/tmp/plugins.zip1'' \<mapsto> ''PK docker''], None)
   \<and> snd (Populate exampleEnv exampleLib specStore Map.empty [])
       = (Some \<lparr>db = [dockerV1], calls = [CallListAll, CallCreate dockerV1],
                logs = [InfoMsgf ''added %d new entries to plugins'' 1], cnt = 1\<rparr>, None)"
  by (simp add: notFoundResponse_def exampleEnv_def downloadZip_def Populate_def openAndUpsert_def
      Let_def example_eval)

text \<open>
  C7, amended. For a response with any status code, once the output file can
  be created, \<^verbatim>\<open>downloadZip\<close> writes the body to the file and fails only
  with the error of copying the body, if there is one; when there is none,
  \<^verbatim>\<open>Populate\<close> goes on to open the temporary file as the archive.
\<close>

theorem download_ignores_status_code:
  assumes "Get E url = Inr response" and "CreateErr E path = None"
  shows "downloadZip E fs url path
         = (fs(path \<mapsto> fst (Body response)),
            map_option (Wrapf ''could not copy response body output to file'')
              (snd (Body response)))
       \<and> (PluginsZipPath E = url \<and> url \<noteq> [] \<and> fs url = None \<and> CreateTemp E = Inr path
            \<and> snd (Body response) = None \<longrightarrow>
          snd (Populate E L S fs s)
          = openAndUpsert E L S (fs(path \<mapsto> fst (Body response))) path s)"
proof
  show dl: "downloadZip E fs' url path
         = (fs'(path \<mapsto> fst (Body response)),
            map_option (Wrapf ''could not copy response body output to file'')
              (snd (Body response)))" for fs'
    using assms by (simp add: downloadZip_def split: prod.split option.split)
  show "PluginsZipPath E = url \<and> url \<noteq> [] \<and> fs url = None \<and> CreateTemp E = Inr path
            \<and> snd (Body response) = None \<longrightarrow>
          snd (Populate E L S fs s)
          = openAndUpsert E L S (fs(path \<mapsto> fst (Body response))) path s"
    using dl [of "fs(path \<mapsto> [])"]
    by (simp add: Populate_def Let_def split: prod.split)
qed

theorem download_ignores_status_code_witness:
  "Get exampleEnv ''https://example.com/plugins.zip'' = Inr notFoundResponse
   \<and> CreateErr exampleEnv ''/tmp/plugins.zip1'' = None
   \<and> StatusCode notFoundResponse = 404
   \<and> PluginsZipPath exampleEnv = ''https://example.com/plugins.zip''
   \<and> CreateTemp exampleEnv = Inr ''/tmp/plugins.zip1''
   \<and> snd (Body notFoundResponse) = None
   \<and> downloadZip exampleEnv Map.empty ''https://example.com/plugins.zip'' ''/tmp/plugins.zip1''
       = ([''/tmp/plugins.zip1'' \<mapsto> ''PK docker''], None)
   \<and> snd (Populate exampleEnv exampleLib specStore Map.empty [])
       = openAndUpsert exampleEnv exampleLib specStore
           [''/tmp/plugins.zip1'' \<mapsto> ''PK docker''] ''/tmp/plugins.zip1'' []"
proof -
  have h1: "Get exampleEnv ''https://example.com/plugins.zip'' = Inr notFoundResponse"
    by (simp add: exampleEnv_def)
  have h2: "CreateErr exampleEnv ''/tmp/plugins.zip1'' = None"
    by (simp add: exampleEnv_def)
  have h3: "PluginsZipPath exampleEnv = ''https://example.com/plugins.zip''"
    "CreateTemp exampleEnv = Inr ''/tmp/plugins.zip1''"
    by (simp_all add: exampleEnv_def)
  have h4: "snd (Body notFoundResponse) = None" "StatusCode notFoundResponse = 404"
    "fst (Body notFoundResponse) = ''PK docker''"
    by (simp_all add: notFoundResponse_def)
  from download_ignores_status_code [OF h1 h2, of Map.empty exampleLib specStore "[]"] h1 h2 h3 h4
  show ?thesis by simp
qed

text \<open>
  C8. A lookup whose kind is not \<^verbatim>\<open>plugin\<close> or whose type is not
  \<^verbatim>\<open>step\<close> returns an error and makes no store call; a lookup with both
  makes exactly the one \<open>Find\<close> call.
\<close>

theorem lookup_unsupported_query_no_store_call:
  "(kind \<noteq> ''plugin'' \<or> typ \<noteq> ''step'' \<longrightarrow>
      (\<exists>err. fst (GetLookupFn L S s name kind typ version) = Inl err)
      \<and> snd (GetLookupFn L S s name kind typ version) = [])
   \<and> (kind = ''plugin'' \<and> typ = ''step'' \<longrightarrow>
      snd (GetLookupFn L S s name kind typ version) = [CallFind name version])"
  by (simp add: GetLookupFn_def split: sum.split)

theorem lookup_unsupported_query_no_store_call_witness:
  "''template'' \<noteq> ''plugin''
   \<and> fst (GetLookupFn exampleLib specStore [dockerV1] ''docker'' ''template'' ''step'' ''1'')
       = Inl (Error ''only plugin kind supported'')
   \<and> snd (GetLookupFn exampleLib specStore [dockerV1] ''docker'' ''template'' ''step'' ''1'') = []
   \<and> ''stage'' \<noteq> ''step''
   \<and> fst (GetLookupFn exampleLib specStore [dockerV1] ''docker'' ''plugin'' ''stage'' ''1'')
       = Inl (Error ''only step plugins supported'')
   \<and> snd (GetLookupFn exampleLib specStore [dockerV1] ''docker'' ''plugin'' ''stage'' ''1'') = []
   \<and> snd (GetLookupFn exampleLib specStore [dockerV1] ''docker'' ''plugin'' ''step'' ''1'')
       = [CallFind ''docker'' ''1'']"
  using lookup_unsupported_query_no_store_call
      [of "''template''" "''step''" exampleLib specStore "[dockerV1]" "''docker''" "''1''"]
    lookup_unsupported_query_no_store_call
      [of "''plugin''" "''stage''" exampleLib specStore "[dockerV1]" "''docker''" "''1''"]
    lookup_unsupported_query_no_store_call
      [of "''plugin''" "''step''" exampleLib specStore "[dockerV1]" "''docker''" "''1''"]
  by (simp add: GetLookupFn_def)

text \<open>
  C9. A catalog entry whose identifier is not the identifier of any descriptor
  parsed from the archive is left alone: whatever the store, no \<open>Update\<close> or
  \<open>Create\<close> call of the pass carries its identifier; on the store of the spec
  the entries of that identifier are after the pass what they were before.
\<close>

theorem absent_identifiers_left_untouched:
  assumes "ListAll S s = Inr plugins"
    and "p \<in> set rows"
    and "UID p \<notin> set (map UID (descriptors L rc))"
  shows "(\<exists>st. traverseAndUpsertPlugins L S rc s = (st, None)
            \<and> (\<forall>d. UID d = UID p \<longrightarrow>
                  CallUpdate d \<notin> set (calls st) \<and> CallCreate d \<notin> set (calls st)))
       \<and> (\<exists>st. traverseAndUpsertPlugins L specStore rc rows = (st, None)
            \<and> filter (\<lambda>q. UID q = UID p) (db st) = filter (\<lambda>q. UID q = UID p) rows
            \<and> p \<in> set (db st))"
proof
  from traverseFiles_trace [of L S "pluginMapOf plugins" rc "File rc" "initState s"]
  obtain st' where tr: "traverseFiles L S (pluginMapOf plugins) rc (File rc) (initState s) = (st', None)"
    and c: "calls st' = CallListAll # concat (map (callsFor (pluginMapOf plugins)) (descriptors L rc))"
    by (auto simp: initState_def descriptors_def)
  have no: "CallUpdate d \<notin> set (calls st') \<and> CallCreate d \<notin> set (calls st')" if "UID d = UID p" for d
  proof -
    have "d \<notin> set (descriptors L rc)" using assms(3) that by (metis image_eqI set_map)
    then show ?thesis using c by (auto dest: callsFor_cases)
  qed
  from tr assms(1) no
  show "\<exists>st. traverseAndUpsertPlugins L S rc s = (st, None)
            \<and> (\<forall>d. UID d = UID p \<longrightarrow>
                  CallUpdate d \<notin> set (calls st) \<and> CallCreate d \<notin> set (calls st))"
    by (simp add: traverseAndUpsertPlugins_def Let_def)
next
  from traverseFiles_trace [of L specStore "pluginMapOf rows" rc "File rc" "initState rows"]
  obtain st' where tr: "traverseFiles L specStore (pluginMapOf rows) rc (File rc) (initState rows)
      = (st', None)"
    by blast
  from assms(3) have "UID p \<notin> set (map UID (List.map_filter (descriptor L rc) (File rc)))"
    by (simp add: descriptors_def)
  from traverseFiles_specStore_frame [OF this tr]
  have fr: "filter (\<lambda>q. UID q = UID p) (db st') = filter (\<lambda>q. UID q = UID p) rows"
    by (simp add: initState_def)
  from assms(2) have "p \<in> set (filter (\<lambda>q. UID q = UID p) rows)" by simp
  with fr have "p \<in> set (filter (\<lambda>q. UID q = UID p) (db st'))" by simp
  then have "p \<in> set (db st')" by simp
  with tr fr
  show "\<exists>st. traverseAndUpsertPlugins L specStore rc rows = (st, None)
            \<and> filter (\<lambda>q. UID q = UID p) (db st) = filter (\<lambda>q. UID q = UID p) rows
            \<and> p \<in> set (db st)"
    by (simp add: traverseAndUpsertPlugins_def specStore_fields Let_def)
qed

theorem absent_identifiers_left_untouched_witness:
  "ListAll specStore [slackV1] = Inr [slackV1]
   \<and> slackV1 \<in> set [slackV1]
   \<and> UID slackV1 \<notin> set (map UID (descriptors exampleLib (exampleArchive [dockerFile1])))
   \<and> (\<exists>st. traverseAndUpsertPlugins exampleLib specStore (exampleArchive [dockerFile1]) [slackV1]
              = (st, None)
          \<and> filter (\<lambda>q. UID q = UID slackV1) (db st) = [slackV1]
          \<and> slackV1 \<in> set (db st)
          \<and> CallUpdate slackV1 \<notin> set (calls st))"
proof -
  have h1: "ListAll specStore [slackV1] = Inr [slackV1]"
    by (simp add: specStore_fields)
  have h2: "slackV1 \<in> set [slackV1]" by simp
  have h3: "UID slackV1 \<notin> set (map UID (descriptors exampleLib (exampleArchive [dockerFile1])))"
    by (simp add: docker_slack_descriptors UID_docker UID_slack)
  from absent_identifiers_left_untouched [OF h1 h2 h3]
  obtain st where "traverseAndUpsertPlugins exampleLib specStore (exampleArchive [dockerFile1]) [slackV1]
              = (st, None)"
    and "filter (\<lambda>q. UID q = UID slackV1) (db st) = filter (\<lambda>q. UID q = UID slackV1) [slackV1]"
    and "slackV1 \<in> set (db st)"
    and "CallUpdate slackV1 \<notin> set (calls st)"
    by auto
  then have "\<exists>st. traverseAndUpsertPlugins exampleLib specStore (exampleArchive [dockerFile1]) [slackV1]
              = (st, None)
          \<and> filter (\<lambda>q. UID q = UID slackV1) (db st) = [slackV1]
          \<and> slackV1 \<in> set (db st)
          \<and> CallUpdate slackV1 \<notin> set (calls st)"
    by auto
  with h1 h2 h3 show ?thesis by blast
qed

text \<open>
  C10. The store is listed once, before the loop, and the call made for each
  descriptor is decided by that listing alone (the last listed plugin with the
  descriptor's identifier), whatever the store did with the earlier calls of
  the pass. So two entries with the same new identifier give two \<open>Create\<close>
  calls, and an entry equal to the listed plugin is skipped even after an
  earlier entry of the pass has replaced that plugin in the store.
\<close>

theorem index_built_once_before_the_loop:
  assumes "ListAll S s = Inr plugins"
  shows "\<exists>st. traverseAndUpsertPlugins L S rc s = (st, None)
           \<and> calls st = CallListAll #
                 concat (map (\<lambda>d. case find (\<lambda>p. UID p = UID d) (rev plugins) of
                                     None \<Rightarrow> [CallCreate d]
                                   | Some p \<Rightarrow> if Matches p d then [] else [CallUpdate d])
                           (descriptors L rc))"
proof -
  have "callsFor (pluginMapOf plugins)
      = (\<lambda>d. case find (\<lambda>p. UID p = UID d) (rev plugins) of
                None \<Rightarrow> [CallCreate d]
              | Some p \<Rightarrow> if Matches p d then [] else [CallUpdate d])"
    by (simp add: fun_eq_iff callsFor_def pluginMapOf_find)
  with assms traverseFiles_trace [of L S "pluginMapOf plugins" rc "File rc" "initState s"]
  show ?thesis
    by (auto simp: traverseAndUpsertPlugins_def descriptors_def initState_def Let_def)
qed

theorem index_built_once_before_the_loop_witness:
  "ListAll specStore [slackV1] = Inr [slackV1]
   \<and> (\<exists>st. traverseAndUpsertPlugins exampleLib specStore
               (exampleArchive [slackFile, dockerFile1, dockerFile2]) [slackV1] = (st, None)
          \<and> calls st = [CallListAll, CallCreate dockerV1, CallCreate dockerV2])
   \<and> ListAll specStore [dockerV1] = Inr [dockerV1]
   \<and> (\<exists>st. traverseAndUpsertPlugins exampleLib specStore
               (exampleArchive [dockerFile2, dockerFile1]) [dockerV1] = (st, None)
          \<and> calls st = [CallListAll, CallUpdate dockerV2])"
proof -
  have h1: "ListAll specStore [slackV1] = Inr [slackV1]"
    by (simp add: specStore_fields)
  have h2: "ListAll specStore [dockerV1] = Inr [dockerV1]"
    by (simp add: specStore_fields)
  have m: "Matches slackV1 slackV1" "Matches dockerV1 dockerV1" "\<not> Matches dockerV1 dockerV2"
    by (simp_all add: Matches_def dockerV1_def dockerV2_def)
  from index_built_once_before_the_loop
    [OF h1, of exampleLib "exampleArchive [slackFile, dockerFile1, dockerFile2]"]
  have c1: "\<exists>st. traverseAndUpsertPlugins exampleLib specStore
               (exampleArchive [slackFile, dockerFile1, dockerFile2]) [slackV1] = (st, None)
          \<and> calls st = [CallListAll, CallCreate dockerV1, CallCreate dockerV2]"
    by (simp add: more_descriptors UID_docker UID_slack m)
  from index_built_once_before_the_loop
    [OF h2, of exampleLib "exampleArchive [dockerFile2, dockerFile1]"]
  have c2: "\<exists>st. traverseAndUpsertPlugins exampleLib specStore
               (exampleArchive [dockerFile2, dockerFile1]) [dockerV1] = (st, None)
          \<and> calls st = [CallListAll, CallUpdate dockerV2]"
    by (simp add: more_descriptors UID_docker m)
  from h1 h2 c1 c2 show ?thesis by blast
qed

end
